theory Spec2Isabelle
  imports Complex_Main "HOL-Library.Word" "HOL-Library.AList"
begin

unbundle bit_operations_syntax

section \<open>The leveldb-style log store (wandb/sdk/internal/datastore.py)\<close>

subsection \<open>Constants\<close>

type_synonym byte = "8 word"

definition LEVELDBLOG_HEADER_LEN :: nat where
  "LEVELDBLOG_HEADER_LEN = 7"

definition LEVELDBLOG_BLOCK_LEN :: nat where
  "LEVELDBLOG_BLOCK_LEN = 32768"

definition LEVELDBLOG_DATA_LEN :: nat where
  "LEVELDBLOG_DATA_LEN = LEVELDBLOG_BLOCK_LEN - LEVELDBLOG_HEADER_LEN"

definition LEVELDBLOG_FULL :: nat where
  "LEVELDBLOG_FULL = 1"

definition LEVELDBLOG_FIRST :: nat where
  "LEVELDBLOG_FIRST = 2"

definition LEVELDBLOG_MIDDLE :: nat where
  "LEVELDBLOG_MIDDLE = 3"

definition LEVELDBLOG_LAST :: nat where
  "LEVELDBLOG_LAST = 4"

text \<open>\<^verbatim>\<open>strtobytes(":W&B")\<close>: the four bytes of the identifier in iso8859-1.\<close>

definition LEVELDBLOG_HEADER_IDENT :: "byte list" where
  "LEVELDBLOG_HEADER_IDENT = [0x3A, 0x57, 0x26, 0x42]"

definition LEVELDBLOG_HEADER_MAGIC :: nat where
  "LEVELDBLOG_HEADER_MAGIC = 0xBEE1"

definition LEVELDBLOG_HEADER_VERSION :: nat where
  "LEVELDBLOG_HEADER_VERSION = 0"

subsection \<open>Exceptions\<close>

text \<open>
  Every \<^verbatim>\<open>assert\<close> of the source raises the same \<^verbatim>\<open>AssertionError\<close>; the model
  tags it with the statement that raised it, as the traceback would.
\<close>

datatype assertion =
    Assert_opened_for_scan    \<comment> \<open>\<^verbatim>\<open>assert self._opened_for_scan\<close>\<close>
  | Assert_header_len         \<comment> \<open>\<^verbatim>\<open>assert len(header) == LEVELDBLOG_HEADER_LEN\<close>\<close>
  | Assert_checksum           \<comment> \<open>\<^verbatim>\<open>assert checksum == checksum_computed\<close>\<close>
  | Assert_pad                \<comment> \<open>\<^verbatim>\<open>assert pad == pad_check\<close>\<close>
  | Assert_first              \<comment> \<open>\<^verbatim>\<open>assert dtype == LEVELDBLOG_FIRST\<close>\<close>
  | Assert_middle             \<comment> \<open>\<^verbatim>\<open>assert dtype == LEVELDBLOG_MIDDLE\<close>\<close>
  | Assert_fits               \<comment> \<open>the space check at the head of \<^verbatim>\<open>_write_record\<close>\<close>
  | Assert_data_left          \<comment> \<open>\<^verbatim>\<open>assert data_left\<close>\<close>
  | Assert_read_header_len    \<comment> \<open>\<^verbatim>\<open>assert len(header) == header_length\<close>\<close>
  | Assert_write_header_len   \<comment> \<open>\<^verbatim>\<open>assert len(data) == 7\<close>\<close>
  | Assert_key_empty          \<comment> \<open>\<^verbatim>\<open>assert item.key == ""\<close> of the handler\<close>
  | Assert_unknown_state      \<comment> \<open>\<^verbatim>\<open>raise AssertionError("unknown state")\<close> of the sender\<close>

datatype error =
    AssertionError assertion
  | IndexError
  | StructError               \<comment> \<open>\<^verbatim>\<open>struct.error\<close>\<close>
  | InvalidHeader             \<comment> \<open>\<^verbatim>\<open>Exception("Invalid header")\<close>\<close>
  | FileExistsError
  | FileNotFoundError
  | IOError_file_exists       \<comment> \<open>\<^verbatim>\<open>IOError("File exists: ...")\<close>\<close>
  | UnsupportedOperation      \<comment> \<open>reading a file opened for writing, or the converse\<close>
  | AttributeError            \<comment> \<open>a method called on an object that lacks it\<close>
  | ValueError                \<comment> \<open>an operation on a closed file; text that is not JSON\<close>
  | KeyError
  | TypeError
  | NotModelled               \<comment> \<open>an ordering of two values that are not numbers\<close>

subsection \<open>\<^verbatim>\<open>zlib.crc32\<close>\<close>

text \<open>
  \<^verbatim>\<open>zlib.crc32(data, value)\<close> is the CRC-32 of zlib (reflected polynomial
  \<^verbatim>\<open>0xEDB88320\<close>): the running value is complemented, each byte is folded in and
  shifted out bit by bit, and the result is complemented again. The library is not part
  of the repository; the definition follows its published algorithm.
\<close>

definition crc_step :: "32 word \<Rightarrow> 32 word" where
  "crc_step c = (if bit c 0 then drop_bit 1 c XOR 0xEDB88320 else drop_bit 1 c)"

definition crc_byte :: "32 word \<Rightarrow> byte \<Rightarrow> 32 word" where
  "crc_byte c b = (crc_step ^^ 8) (c XOR ucast b)"

definition crc32 :: "byte list \<Rightarrow> 32 word \<Rightarrow> 32 word" where
  "crc32 data val = NOT (foldl crc_byte (NOT val) data)"

subsection \<open>\<^verbatim>\<open>struct.pack\<close> and \<^verbatim>\<open>struct.unpack\<close>\<close>

text \<open>Little-endian bytes of a number, least significant first.\<close>

fun le_bytes :: "nat \<Rightarrow> nat \<Rightarrow> byte list" where
  "le_bytes 0 v = []"
| "le_bytes (Suc n) v = of_nat (v mod 256) # le_bytes n (v div 256)"

fun le_value :: "byte list \<Rightarrow> nat" where
  "le_value [] = 0"
| "le_value (b # bs) = unat b + 256 * le_value bs"

text \<open>\<^verbatim>\<open>struct.pack("<IHB", checksum, dlength, dtype)\<close>; a value out of the range of its
  field raises \<^verbatim>\<open>struct.error\<close>.\<close>

definition pack_IHB :: "32 word \<Rightarrow> nat \<Rightarrow> nat \<Rightarrow> error + byte list" where
  "pack_IHB checksum dlength dtype =
     (if dlength < 65536 \<and> dtype < 256
      then Inr (le_bytes 4 (unat checksum) @ le_bytes 2 dlength @ le_bytes 1 dtype)
      else Inl StructError)"

text \<open>\<^verbatim>\<open>struct.unpack("<IHB", header)\<close>; a buffer that is not 7 bytes long raises
  \<^verbatim>\<open>struct.error\<close>.\<close>

definition unpack_IHB :: "byte list \<Rightarrow> error + (32 word \<times> nat \<times> nat)" where
  "unpack_IHB header =
     (if length header = 7
      then Inr (of_nat (le_value (take 4 header)),
                le_value (take 2 (drop 4 header)),
                le_value (drop 6 header))
      else Inl StructError)"

text \<open>\<^verbatim>\<open>struct.pack("<4sHB", ident, magic, version)\<close>: the identifier is cut or
  zero-filled to four bytes.\<close>

definition pack_4sHB :: "byte list \<Rightarrow> nat \<Rightarrow> nat \<Rightarrow> error + byte list" where
  "pack_4sHB ident magic version =
     (if magic < 65536 \<and> version < 256
      then Inr (take 4 (ident @ replicate 4 0) @ le_bytes 2 magic @ le_bytes 1 version)
      else Inl StructError)"

definition unpack_4sHB :: "byte list \<Rightarrow> error + (byte list \<times> nat \<times> nat)" where
  "unpack_4sHB header =
     (if length header = 7
      then Inr (take 4 header, le_value (take 2 (drop 4 header)), le_value (drop 6 header))
      else Inl StructError)"

subsection \<open>File objects\<close>

text \<open>
  A file opened \<^verbatim>\<open>"rb"\<close> holds the bytes of the file and a position; a file opened
  \<^verbatim>\<open>"wb"\<close> or \<^verbatim>\<open>"xb"\<close> starts empty and holds the bytes written so far (the
  source never seeks, so its position is the end).
\<close>

datatype pyfile =
    RFile "byte list" nat
  | WFile "byte list"
  | ClosedFile

text \<open>\<^verbatim>\<open>fp.read(n)\<close>: at most \<^verbatim>\<open>n\<close> bytes, fewer at the end of the file.\<close>

fun fp_read :: "pyfile option \<Rightarrow> nat \<Rightarrow> error + (byte list \<times> pyfile option)" where
  "fp_read None n = Inl AttributeError"
| "fp_read (Some (WFile bs)) n = Inl UnsupportedOperation"
| "fp_read (Some ClosedFile) n = Inl ValueError"
| "fp_read (Some (RFile bs pos)) n =
     (let got = take n (drop pos bs) in Inr (got, Some (RFile bs (pos + length got))))"

fun fp_write :: "pyfile option \<Rightarrow> byte list \<Rightarrow> error + pyfile option" where
  "fp_write None s = Inl AttributeError"
| "fp_write (Some (RFile bs pos)) s = Inl UnsupportedOperation"
| "fp_write (Some ClosedFile) s = Inl ValueError"
| "fp_write (Some (WFile bs)) s = Inr (Some (WFile (bs @ s)))"

subsection \<open>The \<^verbatim>\<open>DataStore\<close> object\<close>

record datastore =
  opened_for_scan :: bool
  fp :: "pyfile option"
  index :: nat
  fname :: string

text \<open>\<^verbatim>\<open>self._crc\<close>: entry 0 is 0, entry \<^verbatim>\<open>x\<close> in 1..4 is the CRC-32 of the one byte
  \<^verbatim>\<open>x\<close>. It is the same for every instance, so it is a constant of the model.\<close>

definition crc_table :: "32 word list" where
  "crc_table = 0 # map (\<lambda>x. crc32 [of_nat x] 0) [1 ..< LEVELDBLOG_LAST + 1]"

definition crc_seed :: "nat \<Rightarrow> error + 32 word" where
  "crc_seed dtype = (if dtype < length crc_table then Inr (crc_table ! dtype) else Inl IndexError)"

text \<open>\<^verbatim>\<open>DataStore.__init__\<close>.\<close>

definition init_datastore :: datastore where
  "init_datastore = \<lparr>opened_for_scan = False, fp = None, index = 0, fname = []\<rparr>"

subsection \<open>Writing\<close>

definition write_header :: "datastore \<Rightarrow> error + datastore" where
  "write_header ds =
     (case pack_4sHB LEVELDBLOG_HEADER_IDENT LEVELDBLOG_HEADER_MAGIC LEVELDBLOG_HEADER_VERSION of
        Inl e \<Rightarrow> Inl e
      | Inr data \<Rightarrow>
          if length data \<noteq> 7 then Inl (AssertionError Assert_write_header_len)
          else (case fp_write (fp ds) data of
                  Inl e \<Rightarrow> Inl e
                | Inr f \<Rightarrow> Inr (ds\<lparr>fp := f, index := index ds + length data\<rparr>)))"

text \<open>
  \<^verbatim>\<open>_write_record(s, dtype=None)\<close>. The argument \<^verbatim>\<open>dtype\<close> is \<^verbatim>\<open>None\<close> when the
  caller leaves it out; \<^verbatim>\<open>dtype or LEVELDBLOG_FULL\<close> replaces \<^verbatim>\<open>None\<close> and 0.
\<close>

definition write_record :: "datastore \<Rightarrow> byte list \<Rightarrow> nat option \<Rightarrow> error + datastore" where
  "write_record ds s dtype_arg =
     (if \<not> (length s + LEVELDBLOG_HEADER_LEN
              \<le> LEVELDBLOG_BLOCK_LEN - index ds mod LEVELDBLOG_BLOCK_LEN)
      then Inl (AssertionError Assert_fits)
      else
        let dlength = length s;
            dtype = (case dtype_arg of None \<Rightarrow> LEVELDBLOG_FULL
                     | Some d \<Rightarrow> if d = 0 then LEVELDBLOG_FULL else d)
        in case crc_seed dtype of
             Inl e \<Rightarrow> Inl e
           | Inr seed \<Rightarrow>
               (case pack_IHB (crc32 s seed) dlength dtype of
                  Inl e \<Rightarrow> Inl e
                | Inr hdr \<Rightarrow>
                    (case fp_write (fp ds) hdr of
                       Inl e \<Rightarrow> Inl e
                     | Inr f1 \<Rightarrow>
                         (case (if dlength \<noteq> 0 then fp_write f1 s else Inr f1) of
                            Inl e \<Rightarrow> Inl e
                          | Inr f2 \<Rightarrow>
                              Inr (ds\<lparr>fp := f2,
                                      index := index ds + (LEVELDBLOG_HEADER_LEN + length s)\<rparr>)))))"

text \<open>
  The \<^verbatim>\<open>while data_left > LEVELDBLOG_DATA_LEN\<close> loop of \<^verbatim>\<open>_write_data\<close>, on the
  store and the two counters it updates. \<^verbatim>\<open>s[a:b]\<close> is \<open>take (b - a) (drop a s)\<close>.
\<close>

function write_middles ::
  "datastore \<Rightarrow> byte list \<Rightarrow> nat \<Rightarrow> nat \<Rightarrow> error + (datastore \<times> nat \<times> nat)" where
  "write_middles ds s data_used data_left =
     (if data_left > LEVELDBLOG_DATA_LEN
      then (case write_record ds (take LEVELDBLOG_DATA_LEN (drop data_used s))
                   (Some LEVELDBLOG_MIDDLE) of
              Inl e \<Rightarrow> Inl e
            | Inr ds' \<Rightarrow>
                write_middles ds' s (data_used + LEVELDBLOG_DATA_LEN)
                  (data_left - LEVELDBLOG_DATA_LEN))
      else Inr (ds, data_used, data_left))"
  by pat_completeness auto
termination
  by (relation "measure (\<lambda>(ds, s, data_used, data_left). data_left)")
     (auto simp: LEVELDBLOG_DATA_LEN_def LEVELDBLOG_BLOCK_LEN_def LEVELDBLOG_HEADER_LEN_def)

text \<open>
  \<^verbatim>\<open>_write_data(s)\<close>, returning
  \<^verbatim>\<open>(file_offset, self._index - file_offset, flush_index, flush_offset)\<close> and the store.
  The counters are natural numbers: every subtraction of the source is of a smaller
  from a larger number on the path that reaches it (\<^verbatim>\<open>space_left\<close> is at least 7
  after the padding branch, and \<^verbatim>\<open>data_left\<close> exceeds what is taken from it).
\<close>

definition write_pad :: "datastore \<Rightarrow> error + (datastore \<times> nat)" where
  \<comment> \<open>the padding branch at the head of \<^verbatim>\<open>_write_data\<close>: the store and \<^verbatim>\<open>space_left\<close>\<close>
  "write_pad ds =
     (let offset = index ds mod LEVELDBLOG_BLOCK_LEN;
          space_left = LEVELDBLOG_BLOCK_LEN - offset
      in if space_left < LEVELDBLOG_HEADER_LEN
         then (case fp_write (fp ds) (replicate space_left 0) of
                 Inl e \<Rightarrow> Inl e
               | Inr f \<Rightarrow>
                   Inr (ds\<lparr>fp := f, index := index ds + space_left\<rparr>, LEVELDBLOG_BLOCK_LEN))
         else Inr (ds, space_left))"

definition write_data ::
  "datastore \<Rightarrow> byte list \<Rightarrow> error + ((nat \<times> nat \<times> nat \<times> nat) \<times> datastore)" where
  "write_data ds s =
     (let file_offset = index ds;
          flush_index = 0;
          flush_offset = 0;
          data_left = length s
      in case write_pad ds of
           Inl e \<Rightarrow> Inl e
         | Inr (ds1, space_left) \<Rightarrow>
             (case (if data_left + LEVELDBLOG_HEADER_LEN \<le> space_left
                    then write_record ds1 s None
                    else
                      let data_room = space_left - LEVELDBLOG_HEADER_LEN
                      in case write_record ds1 (take data_room s) (Some LEVELDBLOG_FIRST) of
                           Inl e \<Rightarrow> Inl e
                         | Inr ds2 \<Rightarrow>
                             let data_used = data_room;
                                 data_left = data_left - data_room
                             in if data_left = 0 then Inl (AssertionError Assert_data_left)
                                else (case write_middles ds2 s data_used data_left of
                                        Inl e \<Rightarrow> Inl e
                                      | Inr (ds3, data_used, data_left) \<Rightarrow>
                                          write_record ds3 (drop data_used s)
                                            (Some LEVELDBLOG_LAST))) of
                Inl e \<Rightarrow> Inl e
              | Inr ds4 \<Rightarrow>
                  Inr ((file_offset, index ds4 - file_offset, flush_index, flush_offset), ds4)))"

text \<open>A sequence of appends, stopping at the first exception.\<close>

fun write_all :: "datastore \<Rightarrow> byte list list \<Rightarrow> error + datastore" where
  "write_all ds [] = Inr ds"
| "write_all ds (s # ss) =
     (case write_data ds s of Inl e \<Rightarrow> Inl e | Inr (r, ds') \<Rightarrow> write_all ds' ss)"

subsection \<open>Scanning\<close>

definition read_header :: "datastore \<Rightarrow> error + datastore" where
  "read_header ds =
     (let header_length = 7
      in case fp_read (fp ds) header_length of
           Inl e \<Rightarrow> Inl e
         | Inr (header, f) \<Rightarrow>
             (case unpack_4sHB header of
                Inl e \<Rightarrow> Inl e
              | Inr (ident, magic, version) \<Rightarrow>
                  if ident \<noteq> LEVELDBLOG_HEADER_IDENT then Inl InvalidHeader
                  else if magic \<noteq> LEVELDBLOG_HEADER_MAGIC then Inl InvalidHeader
                  else if version \<noteq> LEVELDBLOG_HEADER_VERSION then Inl InvalidHeader
                  else if length header \<noteq> header_length
                       then Inl (AssertionError Assert_read_header_len)
                  else Inr (ds\<lparr>fp := f, index := index ds + length header\<rparr>)))"

text \<open>\<^verbatim>\<open>scan_record()\<close>: \<open>None\<close> at the end of the file, else the chunk's type and data.\<close>

definition scan_record :: "datastore \<Rightarrow> error + ((nat \<times> byte list) option \<times> datastore)" where
  "scan_record ds =
     (if \<not> opened_for_scan ds then Inl (AssertionError Assert_opened_for_scan)
      else case fp_read (fp ds) LEVELDBLOG_HEADER_LEN of
             Inl e \<Rightarrow> Inl e
           | Inr (header, f1) \<Rightarrow>
               if length header = 0 then Inr (None, ds\<lparr>fp := f1\<rparr>)
               else if length header \<noteq> LEVELDBLOG_HEADER_LEN
                    then Inl (AssertionError Assert_header_len)
               else (case unpack_IHB header of
                       Inl e \<Rightarrow> Inl e
                     | Inr (checksum, dlength, dtype) \<Rightarrow>
                         (case fp_read f1 dlength of
                            Inl e \<Rightarrow> Inl e
                          | Inr (data, f2) \<Rightarrow>
                              (case crc_seed dtype of
                                 Inl e \<Rightarrow> Inl e
                               | Inr seed \<Rightarrow>
                                   if checksum \<noteq> crc32 data seed
                                   then Inl (AssertionError Assert_checksum)
                                   else Inr (Some (dtype, data),
                                             ds\<lparr>fp := f2,
                                                 index := index ds + LEVELDBLOG_HEADER_LEN
                                                          + dlength\<rparr>)))))"

text \<open>Bytes between the position of the file object and the end of the file.\<close>

fun remaining :: "datastore \<Rightarrow> nat" where
  "remaining ds = (case fp ds of Some (RFile bs pos) \<Rightarrow> length bs - pos | _ \<Rightarrow> 0)"

text \<open>The \<^verbatim>\<open>while True\<close> loop of \<^verbatim>\<open>scan_data\<close>, on the store and \<^verbatim>\<open>data\<close>.\<close>

function scan_loop :: "datastore \<Rightarrow> byte list \<Rightarrow> error + (byte list option \<times> datastore)" where
  "scan_loop ds data =
     (case scan_record ds of
        Inl e \<Rightarrow> Inl e
      | Inr (None, ds') \<Rightarrow> Inr (None, ds')
      | Inr (Some (dtype, new_data), ds') \<Rightarrow>
          if dtype = LEVELDBLOG_LAST then Inr (Some (data @ new_data), ds')
          else if dtype \<noteq> LEVELDBLOG_MIDDLE then Inl (AssertionError Assert_middle)
          else scan_loop ds' (data @ new_data))"
  by pat_completeness auto
termination
proof (relation "measure (\<lambda>(ds, data). remaining ds)", simp, goal_cases)
  case (1 ds data x xa y xb xy xc)
  then show ?case
    by (cases "(fp ds, 0::nat)" rule: fp_read.cases)
       (auto simp: scan_record_def LEVELDBLOG_HEADER_LEN_def Let_def unpack_IHB_def
             split: if_splits sum.splits prod.splits option.splits pyfile.splits)
qed

definition scan_pad :: "datastore \<Rightarrow> error + datastore" where
  \<comment> \<open>the padding branch at the head of \<^verbatim>\<open>scan_data\<close>\<close>
  "scan_pad ds =
     (let offset = index ds mod LEVELDBLOG_BLOCK_LEN;
          space_left = LEVELDBLOG_BLOCK_LEN - offset
      in if space_left < LEVELDBLOG_HEADER_LEN
         then (let pad_check = replicate space_left (0::byte)
               in case fp_read (fp ds) space_left of
                    Inl e \<Rightarrow> Inl e
                  | Inr (pad, f) \<Rightarrow>
                      if pad \<noteq> pad_check then Inl (AssertionError Assert_pad)
                      else Inr (ds\<lparr>fp := f, index := index ds + space_left\<rparr>))
         else Inr ds)"

definition scan_data :: "datastore \<Rightarrow> error + (byte list option \<times> datastore)" where
  "scan_data ds =
     (case scan_pad ds of
        Inl e \<Rightarrow> Inl e
      | Inr ds1 \<Rightarrow>
          (case scan_record ds1 of
             Inl e \<Rightarrow> Inl e
           | Inr (None, ds2) \<Rightarrow> Inr (None, ds2)
           | Inr (Some (dtype, data), ds2) \<Rightarrow>
               if dtype = LEVELDBLOG_FULL then Inr (Some data, ds2)
               else if dtype \<noteq> LEVELDBLOG_FIRST then Inl (AssertionError Assert_first)
               else scan_loop ds2 data))"

text \<open>
  Calling \<^verbatim>\<open>scan_data\<close> until it returns \<^verbatim>\<open>None\<close> or raises: the payloads returned,
  and how the scan ended.
\<close>

datatype scan_end = End_of_stream | Raised error

function scan_all :: "datastore \<Rightarrow> byte list list \<times> scan_end" where
  "scan_all ds =
     (case scan_data ds of
        Inl e \<Rightarrow> ([], Raised e)
      | Inr (None, ds') \<Rightarrow> ([], End_of_stream)
      | Inr (Some data, ds') \<Rightarrow> (case scan_all ds' of (ps, t) \<Rightarrow> (data # ps, t)))"
  by pat_completeness auto
termination
proof (relation "measure remaining", simp, goal_cases)
  case (1 ds x xa y data)
  have rec: "remaining b < remaining a" if "scan_record a = Inr (Some r, b)" for a b r
    using that
    by (cases "(fp a, 0::nat)" rule: fp_read.cases)
       (auto simp: scan_record_def LEVELDBLOG_HEADER_LEN_def Let_def unpack_IHB_def
             split: if_splits sum.splits prod.splits option.splits pyfile.splits)
  have rec0: "remaining b \<le> remaining a" if "scan_record a = Inr (None, b)" for a b
    using that
    by (cases "(fp a, 0::nat)" rule: fp_read.cases)
       (auto simp: scan_record_def LEVELDBLOG_HEADER_LEN_def Let_def unpack_IHB_def
             split: if_splits sum.splits prod.splits option.splits pyfile.splits)
  have loop: "scan_loop a d = Inr (r, b) \<Longrightarrow> remaining b \<le> remaining a" for a d r b
  proof (induction a d rule: scan_loop.induct)
    case (1 a d)
    show ?case
    proof (cases "scan_record a")
      case (Inl e)
      with 1(2) show ?thesis by simp
    next
      case (Inr p)
      obtain ro a' where p: "p = (ro, a')" by (cases p)
      show ?thesis
      proof (cases ro)
        case None
        with 1(2) Inr p have "b = a'" by simp
        with rec0[of a a'] Inr p None show ?thesis by simp
      next
        case (Some td)
        obtain t nd where td: "td = (t, nd)" by (cases td)
        have lt: "remaining a' < remaining a"
          using rec[of a td a'] Inr p Some by simp
        show ?thesis
        proof (cases "t = LEVELDBLOG_LAST")
          case True
          with 1(2) Inr p Some td lt show ?thesis by simp
        next
          case False
          with 1(2) Inr p Some td have m: "t = LEVELDBLOG_MIDDLE"
            by (auto split: if_splits)
          with 1(2) Inr p Some td False have "scan_loop a' (d @ nd) = Inr (r, b)"
            by simp
          then have "remaining b \<le> remaining a'"
            using 1(1)[of p ro a' td t nd] Inr p Some td False m by simp
          with lt show ?thesis by simp
        qed
      qed
    qed
  qed
  have pad: "remaining b \<le> remaining a" if "scan_pad a = Inr b" for a b
    using that
    by (cases "(fp a, 0::nat)" rule: fp_read.cases)
       (auto simp: scan_pad_def Let_def split: if_splits)
  from 1 have sd: "scan_data ds = Inr (Some data, y)" by simp
  then obtain ds1 where p1: "scan_pad ds = Inr ds1"
    by (auto simp: scan_data_def split: sum.splits)
  with sd obtain t d ds2 where r2: "scan_record ds1 = Inr (Some (t, d), ds2)"
    by (auto simp: scan_data_def split: sum.splits option.splits prod.splits)
  have "remaining y \<le> remaining ds2"
  proof (cases "t = LEVELDBLOG_FULL")
    case True
    with sd p1 r2 show ?thesis by (simp add: scan_data_def)
  next
    case False
    with sd p1 r2 have "scan_loop ds2 d = Inr (Some data, y)"
      by (simp add: scan_data_def split: if_splits)
    then show ?thesis by (rule loop)
  qed
  with rec[OF r2] pad[OF p1] have "remaining y < remaining ds" by simp
  then show ?case by simp
qed

subsection \<open>Opening and closing\<close>

text \<open>
  The files of the directory, by name. \<^verbatim>\<open>open(fname, "xb")\<close> refuses an existing file,
  \<^verbatim>\<open>open(fname, "wb")\<close> creates the file or cuts an existing one to length 0, and
  \<^verbatim>\<open>open(fname, "rb")\<close> needs the file to exist. The bytes written through a file
  object reach the file when it is closed.
\<close>

type_synonym filesystem = "string \<rightharpoonup> byte list"

text \<open>\<^verbatim>\<open>PY3\<close> is \<^verbatim>\<open>sys.version_info\<close> at least 3.5; it is a parameter here.\<close>

definition open_for_write ::
  "bool \<Rightarrow> filesystem \<Rightarrow> datastore \<Rightarrow> string \<Rightarrow> error + (filesystem \<times> datastore)" where
  "open_for_write PY3 fs ds name =
     (let ds1 = ds\<lparr>fname := name\<rparr>
      in if \<not> PY3 \<and> name \<in> dom fs then Inl IOError_file_exists
         else if PY3 \<and> name \<in> dom fs then Inl FileExistsError
         else (case write_header (ds1\<lparr>fp := Some (WFile [])\<rparr>) of
                 Inl e \<Rightarrow> Inl e
               | Inr ds2 \<Rightarrow> Inr (fs(name \<mapsto> []), ds2)))"

definition open_for_append ::
  "filesystem \<Rightarrow> datastore \<Rightarrow> string \<Rightarrow> error + (filesystem \<times> datastore)" where
  "open_for_append fs ds name =
     Inr (fs(name \<mapsto> []), ds\<lparr>fname := name, fp := Some (WFile [])\<rparr>)"

definition open_for_scan ::
  "filesystem \<Rightarrow> datastore \<Rightarrow> string \<Rightarrow> error + (filesystem \<times> datastore)" where
  "open_for_scan fs ds name =
     (case fs name of
        None \<Rightarrow> Inl FileNotFoundError
      | Some bs \<Rightarrow>
          (case read_header (ds\<lparr>fname := name, fp := Some (RFile bs 0), index := 0,
                                opened_for_scan := True\<rparr>) of
             Inl e \<Rightarrow> Inl e
           | Inr ds' \<Rightarrow> Inr (fs, ds')))"

definition close :: "filesystem \<Rightarrow> datastore \<Rightarrow> filesystem \<times> datastore" where
  "close fs ds =
     (case fp ds of
        None \<Rightarrow> (fs, ds)
      | Some (WFile bs) \<Rightarrow> (fs(fname ds \<mapsto> bs), ds\<lparr>fp := Some ClosedFile\<rparr>)
      | Some f \<Rightarrow> (fs, ds\<lparr>fp := Some ClosedFile\<rparr>))"

subsection \<open>The bytes of a chunk\<close>

text \<open>
  What \<^verbatim>\<open>_write_record\<close> puts on disk for a chunk of type \<open>dtype\<close> with data \<open>s\<close>:
  the checksum, the length and the type, then the data.
\<close>

definition chunk_bytes :: "nat \<Rightarrow> byte list \<Rightarrow> byte list" where
  "chunk_bytes dtype s =
     le_bytes 4 (unat (crc32 s (crc_table ! dtype))) @ le_bytes 2 (length s) @ le_bytes 1 dtype @ s"

text \<open>The file header that \<^verbatim>\<open>_write_header\<close> writes.\<close>

definition header_bytes :: "byte list" where
  "header_bytes = LEVELDBLOG_HEADER_IDENT @ le_bytes 2 LEVELDBLOG_HEADER_MAGIC
                  @ le_bytes 1 LEVELDBLOG_HEADER_VERSION"

subsection \<open>The bytes of a record\<close>

text \<open>
  What one call of \<^verbatim>\<open>_write_data\<close> with payload \<open>s\<close> puts on disk when the index is
  \<open>i\<close>, written as a function of \<open>i\<close> and \<open>s\<close> alone: the zero padding, then either
  one FULL chunk or a FIRST chunk, full-block MIDDLE chunks and a LAST chunk. The
  theorems below show that \<^verbatim>\<open>_write_data\<close> writes exactly these bytes.
\<close>

function middles_bytes :: "byte list \<Rightarrow> byte list" where
  "middles_bytes r =
     (if length r > LEVELDBLOG_DATA_LEN
      then chunk_bytes LEVELDBLOG_MIDDLE (take LEVELDBLOG_DATA_LEN r)
           @ middles_bytes (drop LEVELDBLOG_DATA_LEN r)
      else chunk_bytes LEVELDBLOG_LAST r)"
  by pat_completeness auto
termination
  by (relation "measure length")
     (auto simp: LEVELDBLOG_DATA_LEN_def LEVELDBLOG_BLOCK_LEN_def LEVELDBLOG_HEADER_LEN_def)

definition pad_bytes :: "nat \<Rightarrow> byte list" where
  "pad_bytes i =
     (if LEVELDBLOG_BLOCK_LEN - i mod LEVELDBLOG_BLOCK_LEN < LEVELDBLOG_HEADER_LEN
      then replicate (LEVELDBLOG_BLOCK_LEN - i mod LEVELDBLOG_BLOCK_LEN) 0 else [])"

definition body_bytes :: "nat \<Rightarrow> byte list \<Rightarrow> byte list" where
  "body_bytes space_left s =
     (if length s + LEVELDBLOG_HEADER_LEN \<le> space_left
      then chunk_bytes LEVELDBLOG_FULL s
      else chunk_bytes LEVELDBLOG_FIRST (take (space_left - LEVELDBLOG_HEADER_LEN) s)
           @ middles_bytes (drop (space_left - LEVELDBLOG_HEADER_LEN) s))"

definition record_bytes :: "nat \<Rightarrow> byte list \<Rightarrow> byte list" where
  "record_bytes i s =
     pad_bytes i
     @ body_bytes (LEVELDBLOG_BLOCK_LEN - (i + length (pad_bytes i)) mod LEVELDBLOG_BLOCK_LEN) s"

fun log_bytes :: "nat \<Rightarrow> byte list list \<Rightarrow> byte list" where
  "log_bytes i [] = []"
| "log_bytes i (s # ss) = record_bytes i s @ log_bytes (i + length (record_bytes i s)) ss"

subsection \<open>Sessions\<close>

text \<open>
  The three ways the store is used, each on a new \<^verbatim>\<open>DataStore\<close>: open for writing,
  append the payloads and close; the same after \<^verbatim>\<open>open_for_append\<close>; open for
  scanning and call \<^verbatim>\<open>scan_data\<close> until it stops.
\<close>

definition write_session ::
  "bool \<Rightarrow> filesystem \<Rightarrow> string \<Rightarrow> byte list list \<Rightarrow> error + filesystem" where
  "write_session PY3 fs name ps =
     (case open_for_write PY3 fs init_datastore name of
        Inl e \<Rightarrow> Inl e
      | Inr (fs1, ds1) \<Rightarrow>
          (case write_all ds1 ps of
             Inl e \<Rightarrow> Inl e
           | Inr ds2 \<Rightarrow> Inr (fst (close fs1 ds2))))"

definition append_session ::
  "filesystem \<Rightarrow> string \<Rightarrow> byte list list \<Rightarrow> error + filesystem" where
  "append_session fs name ps =
     (case open_for_append fs init_datastore name of
        Inl e \<Rightarrow> Inl e
      | Inr (fs1, ds1) \<Rightarrow>
          (case write_all ds1 ps of
             Inl e \<Rightarrow> Inl e
           | Inr ds2 \<Rightarrow> Inr (fst (close fs1 ds2))))"

definition scan_session :: "filesystem \<Rightarrow> string \<Rightarrow> error + (byte list list \<times> scan_end)" where
  "scan_session fs name =
     (case open_for_scan fs init_datastore name of
        Inl e \<Rightarrow> Inl e
      | Inr (fs1, ds1) \<Rightarrow> Inr (scan_all ds1))"

subsection \<open>The chunks of a record, and damage to a file\<close>

text \<open>
  The chunks that make up \<open>record_bytes i s\<close>, as pairs of type and data, and a file
  with bit \<open>k\<close> of its byte at position \<open>p\<close> inverted.
\<close>

function middles_chunks :: "byte list \<Rightarrow> (nat \<times> byte list) list" where
  "middles_chunks r =
     (if length r > LEVELDBLOG_DATA_LEN
      then (LEVELDBLOG_MIDDLE, take LEVELDBLOG_DATA_LEN r)
           # middles_chunks (drop LEVELDBLOG_DATA_LEN r)
      else [(LEVELDBLOG_LAST, r)])"
  by pat_completeness auto
termination
  by (relation "measure length")
     (auto simp: LEVELDBLOG_DATA_LEN_def LEVELDBLOG_BLOCK_LEN_def LEVELDBLOG_HEADER_LEN_def)

definition body_chunks :: "nat \<Rightarrow> byte list \<Rightarrow> (nat \<times> byte list) list" where
  "body_chunks space_left s =
     (if length s + LEVELDBLOG_HEADER_LEN \<le> space_left
      then [(LEVELDBLOG_FULL, s)]
      else (LEVELDBLOG_FIRST, take (space_left - LEVELDBLOG_HEADER_LEN) s)
           # middles_chunks (drop (space_left - LEVELDBLOG_HEADER_LEN) s))"

definition record_chunks :: "nat \<Rightarrow> byte list \<Rightarrow> (nat \<times> byte list) list" where
  "record_chunks i s =
     body_chunks (LEVELDBLOG_BLOCK_LEN - (i + length (pad_bytes i)) mod LEVELDBLOG_BLOCK_LEN) s"

definition chunks_bytes :: "(nat \<times> byte list) list \<Rightarrow> byte list" where
  "chunks_bytes cs = concat (map (\<lambda>(t, d). chunk_bytes t d) cs)"

definition flip_bit_at :: "byte list \<Rightarrow> nat \<Rightarrow> nat \<Rightarrow> byte list" where
  "flip_bit_at bs p k = bs[p := bs ! p XOR push_bit k 1]"

section \<open>The handler and the sender (handler.py, sender.py)\<close>

subsection \<open>JSON values\<close>

text \<open>
  What \<^verbatim>\<open>json.loads\<close> returns: \<^verbatim>\<open>None\<close>, a bool, an int, a float, a str, a list or a
  dict with string keys. A dict is the list of its items in insertion order. A float is
  modelled by the real number it stands for; no statement below depends on rounding.
\<close>

datatype json =
    JNull
  | JBool bool
  | JInt int
  | JFloat real
  | JStr string
  | JArr "json list"
  | JObj "(string \<times> json) list"

type_synonym pydict = "(string \<times> json) list"

text \<open>\<^verbatim>\<open>d[k] = v\<close>, \<^verbatim>\<open>del d[k]\<close> and \<^verbatim>\<open>d.update(other)\<close> on a dict.\<close>

definition dict_set :: "pydict \<Rightarrow> string \<Rightarrow> json \<Rightarrow> pydict" where
  "dict_set d k v = AList.update k v d"

definition dict_del :: "pydict \<Rightarrow> string \<Rightarrow> error + pydict" where
  "dict_del d k = (if map_of d k = None then Inl KeyError else Inr (AList.delete k d))"

definition dict_update :: "pydict \<Rightarrow> pydict \<Rightarrow> pydict" where
  "dict_update d other = fold (\<lambda>(k, v) acc. dict_set acc k v) other d"

text \<open>Truth value of an object in a condition.\<close>

fun truthy :: "json \<Rightarrow> bool" where
  "truthy JNull = False"
| "truthy (JBool b) = b"
| "truthy (JInt i) = (i \<noteq> 0)"
| "truthy (JFloat r) = (r \<noteq> 0)"
| "truthy (JStr s) = (s \<noteq> [])"
| "truthy (JArr xs) = (xs \<noteq> [])"
| "truthy (JObj d) = (d \<noteq> [])"

subsection \<open>Protocol records\<close>

text \<open>
  The messages of \<^verbatim>\<open>wandb_internal_pb2\<close> (generated code, not in the repository's
  sources), with the fields the handler and the sender read. \<open>run_config\<close> is the
  dict that \<^verbatim>\<open>config_util.dict_from_proto_list(run.config.update)\<close> gives, or
  \<open>None\<close> when \<^verbatim>\<open>run.config\<close> is false.
\<close>

record summary_item =
  item_key :: string
  item_nested_key :: "string list"
  item_value_json :: string

record summary_record =
  sr_update :: "summary_item list"
  sr_remove :: "summary_item list"

record run_record =
  run_id :: string
  run_entity :: string
  run_project :: string
  run_display_name :: string
  run_config :: "pydict option"
  run_start_time :: int
  run_resumed :: bool
  run_starting_step :: int
  run_summary :: "pydict option"

datatype request =
    ReqDefer int
  | ReqLogin
  | ReqCheckVersion
  | ReqStatus
  | ReqPollExit

datatype record_type =
    RecRun run_record
  | RecStats
  | RecConfig
  | RecOutput
  | RecFiles
  | RecArtifact
  | RecAlert
  | RecSummary summary_record
  | RecExit int
  | RecFinal
  | RecHeader
  | RecFooter
  | RecRequest request

record pb_record =
  rec_type :: record_type
  control_req_resp :: bool
  control_local :: bool
  uuid :: string

text \<open>
  Modelled from the spec: the values of the enum \<^verbatim>\<open>DeferRequest.DeferState\<close>, which is
  declared in the protocol file. The spec gives the order BEGIN, FLUSH_STATS, FLUSH_TB,
  FLUSH_SUM, FLUSH_DIR, FLUSH_FP, FLUSH_FS, FLUSH_FINAL, END, and the sender goes from
  one to the next with \<^verbatim>\<open>state += 1\<close>.
\<close>

definition BEGIN :: int where "BEGIN = 0"
definition FLUSH_STATS :: int where "FLUSH_STATS = 1"
definition FLUSH_TB :: int where "FLUSH_TB = 2"
definition FLUSH_SUM :: int where "FLUSH_SUM = 3"
definition FLUSH_DIR :: int where "FLUSH_DIR = 4"
definition FLUSH_FP :: int where "FLUSH_FP = 5"
definition FLUSH_FS :: int where "FLUSH_FS = 6"
definition FLUSH_FINAL :: int where "FLUSH_FINAL = 7"
definition END :: int where "END = 8"

subsection \<open>The handler\<close>

text \<open>
  \<^verbatim>\<open>HandleManager\<close>: the offline setting, the two queues it puts records on, the
  consolidated summary, and whether the system statistics thread and the tensorboard
  watcher exist (their own work is outside the repository's sources shown here; the
  model keeps the calls made on them).
\<close>

datatype handler_call = Stats_shutdown | Tb_finish

record handler =
  settings_offline :: bool
  sender_q :: "pb_record list"
  writer_q :: "pb_record list"
  consolidated_summary :: pydict
  system_stats :: bool
  tb_watcher :: bool
  handler_calls :: "handler_call list"

text \<open>\<^verbatim>\<open>_dispatch_record(record, always_send=False)\<close>.\<close>

definition dispatch_record :: "handler \<Rightarrow> pb_record \<Rightarrow> bool \<Rightarrow> handler" where
  "dispatch_record h r always_send =
     (let h1 = (if \<not> settings_offline h \<or> always_send
                then h\<lparr>sender_q := sender_q h @ [r]\<rparr> else h)
      in if \<not> control_local r then h1\<lparr>writer_q := writer_q h1 @ [r]\<rparr> else h1)"

text \<open>
  \<^verbatim>\<open>_save_summary(summary_dict, flush=False)\<close>: a new record with one update item for
  each key of the dict. \<^verbatim>\<open>json.dumps\<close> is a parameter. A new record has empty control
  fields.
\<close>

definition summary_record_of :: "(json \<Rightarrow> string) \<Rightarrow> pydict \<Rightarrow> pb_record" where
  "summary_record_of dumps d =
     \<lparr>rec_type = RecSummary
        \<lparr>sr_update = map (\<lambda>(k, v). \<lparr>item_key = k, item_nested_key = [],
                                      item_value_json = dumps v\<rparr>) d,
         sr_remove = []\<rparr>,
      control_req_resp = False, control_local = False, uuid = []\<rparr>"

definition save_summary :: "(json \<Rightarrow> string) \<Rightarrow> handler \<Rightarrow> pydict \<Rightarrow> bool \<Rightarrow> handler" where
  "save_summary dumps h summary_dict flush =
     (let r = summary_record_of dumps summary_dict
      in if flush then dispatch_record h r False
         else if \<not> settings_offline h then h\<lparr>sender_q := sender_q h @ [r]\<rparr>
         else h)"

text \<open>\<^verbatim>\<open>handle_request_defer(record)\<close>, for a record whose request is a defer with
  state \<open>state\<close>.\<close>

definition handle_request_defer ::
  "(json \<Rightarrow> string) \<Rightarrow> handler \<Rightarrow> pb_record \<Rightarrow> int \<Rightarrow> handler" where
  "handle_request_defer dumps h r state =
     (let h1 =
        (if state = FLUSH_STATS
         then (if system_stats h then h\<lparr>handler_calls := handler_calls h @ [Stats_shutdown]\<rparr>
               else h)
         else if state = FLUSH_TB
         then (if tb_watcher h
               then h\<lparr>handler_calls := handler_calls h @ [Tb_finish], tb_watcher := False\<rparr>
               else h)
         else if state = FLUSH_SUM
         then save_summary dumps h (consolidated_summary h) True
         else h)
      in dispatch_record h1 r True)"

text \<open>
  \<^verbatim>\<open>handle_summary\<close>. The key of an item is its nested key, or the one-element path of
  its flat key.
\<close>

definition summary_key :: "summary_item \<Rightarrow> error + string list" where
  "summary_key item =
     (if length (item_nested_key item) > 0
      then (if item_key item \<noteq> [] then Inl (AssertionError Assert_key_empty)
            else Inr (item_nested_key item))
      else Inr [item_key item])"

text \<open>
  \<^verbatim>\<open>for prop in key[:-1]: target = target[prop]\<close> and then the operation \<open>f\<close> on the
  target, which the source does in place: the result is the whole tree with the target
  replaced. Subscripting anything but a dict with a string raises \<^verbatim>\<open>TypeError\<close>.
\<close>

fun modify_path :: "json \<Rightarrow> string list \<Rightarrow> (json \<Rightarrow> error + json) \<Rightarrow> error + json" where
  "modify_path target [] f = f target"
| "modify_path (JObj d) (prop # props) f =
     (case map_of d prop of
        None \<Rightarrow> Inl KeyError
      | Some child \<Rightarrow>
          (case modify_path child props f of
             Inl e \<Rightarrow> Inl e
           | Inr child' \<Rightarrow> Inr (JObj (dict_set d prop child'))))"
| "modify_path target (prop # props) f = Inl TypeError"

text \<open>\<^verbatim>\<open>target[k] = json.loads(value_json)\<close>: the value is decoded first.\<close>

definition set_leaf :: "(string \<Rightarrow> json option) \<Rightarrow> string \<Rightarrow> string \<Rightarrow> json \<Rightarrow> error + json" where
  "set_leaf loads k value_json target =
     (case loads value_json of
        None \<Rightarrow> Inl ValueError
      | Some v \<Rightarrow> (case target of JObj d \<Rightarrow> Inr (JObj (dict_set d k v)) | _ \<Rightarrow> Inl TypeError))"

text \<open>\<^verbatim>\<open>del target[k]\<close>.\<close>

definition del_leaf :: "string \<Rightarrow> json \<Rightarrow> error + json" where
  "del_leaf k target =
     (case target of
        JObj d \<Rightarrow> (case dict_del d k of Inl e \<Rightarrow> Inl e | Inr d' \<Rightarrow> Inr (JObj d'))
      | _ \<Rightarrow> Inl TypeError)"

definition the_dict :: "json \<Rightarrow> pydict" where
  "the_dict v = (case v of JObj d \<Rightarrow> d | _ \<Rightarrow> [])"

text \<open>One pass of the loop over \<^verbatim>\<open>summary.update\<close>, and one of the loop over
  \<^verbatim>\<open>summary.remove\<close>.\<close>

definition apply_update :: "(string \<Rightarrow> json option) \<Rightarrow> pydict \<Rightarrow> summary_item \<Rightarrow> error + pydict" where
  "apply_update loads summary item =
     (case summary_key item of
        Inl e \<Rightarrow> Inl e
      | Inr key \<Rightarrow>
          (case modify_path (JObj summary) (butlast key)
                  (set_leaf loads (last key) (item_value_json item)) of
             Inl e \<Rightarrow> Inl e
           | Inr t \<Rightarrow> Inr (the_dict t)))"

definition apply_remove :: "pydict \<Rightarrow> summary_item \<Rightarrow> error + pydict" where
  "apply_remove summary item =
     (case summary_key item of
        Inl e \<Rightarrow> Inl e
      | Inr key \<Rightarrow>
          (case modify_path (JObj summary) (butlast key) (del_leaf (last key)) of
             Inl e \<Rightarrow> Inl e
           | Inr t \<Rightarrow> Inr (the_dict t)))"

fun apply_updates :: "(string \<Rightarrow> json option) \<Rightarrow> pydict \<Rightarrow> summary_item list \<Rightarrow> error + pydict" where
  "apply_updates loads summary [] = Inr summary"
| "apply_updates loads summary (item # items) =
     (case apply_update loads summary item of
        Inl e \<Rightarrow> Inl e
      | Inr summary' \<Rightarrow> apply_updates loads summary' items)"

fun apply_removes :: "pydict \<Rightarrow> summary_item list \<Rightarrow> error + pydict" where
  "apply_removes summary [] = Inr summary"
| "apply_removes summary (item # items) =
     (case apply_remove summary item of
        Inl e \<Rightarrow> Inl e
      | Inr summary' \<Rightarrow> apply_removes summary' items)"

text \<open>
  \<^verbatim>\<open>handle_summary(record)\<close> for a record that holds the summary \<open>s\<close>. An exception
  leaves the handler as the items before it made it; the model returns the exception
  alone.
\<close>

definition handle_summary ::
  "(string \<Rightarrow> json option) \<Rightarrow> (json \<Rightarrow> string) \<Rightarrow> handler \<Rightarrow> summary_record \<Rightarrow> error + handler" where
  "handle_summary loads dumps h s =
     (case apply_updates loads (consolidated_summary h) (sr_update s) of
        Inl e \<Rightarrow> Inl e
      | Inr d1 \<Rightarrow>
          (case apply_removes d1 (sr_remove s) of
             Inl e \<Rightarrow> Inl e
           | Inr d2 \<Rightarrow>
               Inr (save_summary dumps (h\<lparr>consolidated_summary := d2\<rparr>) d2 False)))"

text \<open>
  \<^verbatim>\<open>handle(record)\<close>: the handler of the record's kind. Kinds whose handlers use code
  outside the sources shown (history sampling, the run start, tensorboard records, the
  requests answered from the handler's own state) are not among the kinds of the model.
\<close>

definition handle ::
  "(string \<Rightarrow> json option) \<Rightarrow> (json \<Rightarrow> string) \<Rightarrow> handler \<Rightarrow> pb_record \<Rightarrow> error + handler" where
  "handle loads dumps h r =
     (case rec_type r of
        RecRun run \<Rightarrow> Inr (dispatch_record h r False)
      | RecStats \<Rightarrow> Inr (dispatch_record h r False)
      | RecConfig \<Rightarrow> Inr (dispatch_record h r False)
      | RecOutput \<Rightarrow> Inr (dispatch_record h r False)
      | RecFiles \<Rightarrow> Inr (dispatch_record h r False)
      | RecArtifact \<Rightarrow> Inr (dispatch_record h r False)
      | RecAlert \<Rightarrow> Inr (dispatch_record h r False)
      | RecSummary s \<Rightarrow> handle_summary loads dumps h s
      | RecExit code \<Rightarrow> Inr (dispatch_record h r True)
      | RecFinal \<Rightarrow> Inr (dispatch_record h r True)
      | RecHeader \<Rightarrow> Inr (dispatch_record h r False)
      | RecFooter \<Rightarrow> Inr (dispatch_record h r False)
      | RecRequest (ReqDefer state) \<Rightarrow> Inr (handle_request_defer dumps h r state)
      | RecRequest ReqLogin \<Rightarrow> Inr (dispatch_record h r False)
      | RecRequest ReqCheckVersion \<Rightarrow> Inr (dispatch_record h r False)
      | RecRequest ReqStatus \<Rightarrow> Inr (dispatch_record h r False)
      | RecRequest ReqPollExit \<Rightarrow> Inr (dispatch_record h r True))"

text \<open>The value at a key path of the summary, if the path exists.\<close>

fun lookup_path :: "json \<Rightarrow> string list \<Rightarrow> json option" where
  "lookup_path v [] = Some v"
| "lookup_path (JObj d) (k # ks) =
     (case map_of d k of None \<Rightarrow> None | Some child \<Rightarrow> lookup_path child ks)"
| "lookup_path v (k # ks) = None"

text \<open>The kinds whose handler is \<^verbatim>\<open>self._dispatch_record(record)\<close> and nothing else.\<close>

fun default_policy :: "record_type \<Rightarrow> bool" where
  "default_policy (RecRun run) = True"
| "default_policy RecStats = True"
| "default_policy RecConfig = True"
| "default_policy RecOutput = True"
| "default_policy RecFiles = True"
| "default_policy RecArtifact = True"
| "default_policy RecAlert = True"
| "default_policy RecHeader = True"
| "default_policy RecFooter = True"
| "default_policy (RecRequest ReqLogin) = True"
| "default_policy (RecRequest ReqCheckVersion) = True"
| "default_policy (RecRequest ReqStatus) = True"
| "default_policy other = False"

subsection \<open>Python operations on decoded JSON\<close>

text \<open>\<^verbatim>\<open>json.loads(x)\<close> for an object \<open>x\<close>: only a str is decoded.\<close>

definition py_loads :: "(string \<Rightarrow> json option) \<Rightarrow> json \<Rightarrow> error + json" where
  "py_loads loads x =
     (case x of
        JStr s \<Rightarrow> (case loads s of None \<Rightarrow> Inl ValueError | Some v \<Rightarrow> Inr v)
      | _ \<Rightarrow> Inl TypeError)"

text \<open>\<^verbatim>\<open>x[-1]\<close>. A dict decoded from JSON has string keys only, so \<^verbatim>\<open>-1\<close> is not a key.\<close>

definition py_last :: "json \<Rightarrow> error + json" where
  "py_last x =
     (case x of
        JArr xs \<Rightarrow> (if xs = [] then Inl IndexError else Inr (last xs))
      | JStr s \<Rightarrow> (if s = [] then Inl IndexError else Inr (JStr [last s]))
      | JObj d \<Rightarrow> Inl KeyError
      | _ \<Rightarrow> Inl TypeError)"

text \<open>\<^verbatim>\<open>x.get(key, default)\<close>: only a dict has the method.\<close>

definition py_get :: "json \<Rightarrow> string \<Rightarrow> json \<Rightarrow> error + json" where
  "py_get x k dflt =
     (case x of
        JObj d \<Rightarrow> Inr (case map_of d k of None \<Rightarrow> dflt | Some v \<Rightarrow> v)
      | _ \<Rightarrow> Inl AttributeError)"

text \<open>Numbers: ints, floats and bools (\<^verbatim>\<open>True\<close> is 1).\<close>

definition py_num :: "json \<Rightarrow> real option" where
  "py_num x =
     (case x of
        JInt i \<Rightarrow> Some (real_of_int i)
      | JFloat r \<Rightarrow> Some r
      | JBool b \<Rightarrow> Some (if b then 1 else 0)
      | _ \<Rightarrow> None)"

text \<open>\<^verbatim>\<open>max(a, b)\<close>: \<open>b\<close> when \<^verbatim>\<open>b > a\<close>, else \<open>a\<close>. Two strings or two lists can be
  ordered too; that ordering is not modelled.\<close>

definition py_max :: "json \<Rightarrow> json \<Rightarrow> error + json" where
  "py_max a b =
     (case (py_num a, py_num b) of
        (Some x, Some y) \<Rightarrow> Inr (if y > x then b else a)
      | _ \<Rightarrow>
          (case (a, b) of
             (JStr s, JStr t) \<Rightarrow> Inl NotModelled
           | (JArr s, JArr t) \<Rightarrow> Inl NotModelled
           | _ \<Rightarrow> Inl TypeError))"

text \<open>\<^verbatim>\<open>x + 1\<close> and \<^verbatim>\<open>t - x\<close> for an int \<open>t\<close>.\<close>

definition py_add1 :: "json \<Rightarrow> error + json" where
  "py_add1 x =
     (case x of
        JInt i \<Rightarrow> Inr (JInt (i + 1))
      | JBool b \<Rightarrow> Inr (JInt ((if b then 1 else 0) + 1))
      | JFloat r \<Rightarrow> Inr (JFloat (r + 1))
      | _ \<Rightarrow> Inl TypeError)"

definition py_int_minus :: "int \<Rightarrow> json \<Rightarrow> error + json" where
  "py_int_minus t x =
     (case x of
        JInt i \<Rightarrow> Inr (JInt (t - i))
      | JBool b \<Rightarrow> Inr (JInt (t - (if b then 1 else 0)))
      | JFloat r \<Rightarrow> Inr (JFloat (real_of_int t - r))
      | _ \<Rightarrow> Inl TypeError)"

subsection \<open>The sender\<close>

text \<open>\<^verbatim>\<open>self._resume_state\<close>. \<^verbatim>\<open>None\<close> is \<open>JNull\<close>.\<close>

record resume_state =
  rs_step :: json
  rs_history :: int
  rs_events :: int
  rs_output :: int
  rs_runtime :: json
  rs_summary :: json
  rs_config :: json
  rs_resumed :: bool

text \<open>The answer of \<^verbatim>\<open>api.run_resume_status\<close>, which the backend gives.\<close>

record resume_status =
  historyTail :: "string option"
  eventsTail :: "string option"
  status_config :: "string option"
  summaryMetrics :: "string option"
  historyLineCount :: int
  eventsLineCount :: int
  logLineCount :: int

text \<open>The fields of the answer of \<^verbatim>\<open>api.upsert_run\<close> that \<^verbatim>\<open>_init_run\<close> reads.\<close>

record server_run =
  sv_displayName :: "string option"
  sv_project_name :: "string option"
  sv_entity_name :: "string option"

datatype error_info =
    Resume_must_but_no_run
  | Resume_never_but_run_exists
  | Resume_must_but_could_not

datatype pb_result =
    Exit_result string
  | Run_result string run_record "error_info option"
  | Poll_exit_result string bool

datatype published = Pub_defer int | Pub_final | Pub_footer

datatype sender_call =
    Dir_watcher_finish
  | Pusher_finish
  | Pusher_print_status
  | Pusher_join
  | Fs_finish int
  | Upsert_run json
  | Save_config_file json
  | Start_run_threads

record sender =
  settings_resume :: "string option"
  s_entity :: "string option"
  s_project :: "string option"
  s_run :: "run_record option"
  s_resume_state :: resume_state
  s_exit_sync_uuid :: "string option"
  s_exit_result :: bool
  s_exit_code :: int
  s_fs :: bool
  s_pusher :: bool
  s_dir_watcher :: bool
  s_published :: "published list"
  s_result_q :: "pb_result list"
  s_calls :: "sender_call list"

text \<open>\<^verbatim>\<open>SendManager.__init__\<close>.\<close>

definition init_sender :: "string option \<Rightarrow> sender" where
  "init_sender resume =
     \<lparr>settings_resume = resume, s_entity = None, s_project = None, s_run = None,
      s_resume_state = \<lparr>rs_step = JInt 0, rs_history = 0, rs_events = 0, rs_output = 0,
                        rs_runtime = JInt 0, rs_summary = JNull, rs_config = JNull,
                        rs_resumed = False\<rparr>,
      s_exit_sync_uuid = None, s_exit_result = False, s_exit_code = 0,
      s_fs = False, s_pusher = False, s_dir_watcher = False,
      s_published = [], s_result_q = [], s_calls = []\<rparr>"

text \<open>
  \<^verbatim>\<open>send_exit\<close>. \<^verbatim>\<open>publish_defer()\<close> is called without a state; its default is in the
  interface module. Modelled from the spec: it publishes a defer at BEGIN.
\<close>

definition send_exit :: "sender \<Rightarrow> pb_record \<Rightarrow> int \<Rightarrow> sender" where
  "send_exit s data exit_code =
     (let s1 = s\<lparr>s_exit_code := exit_code\<rparr>;
          s2 = (if control_req_resp data then s1\<lparr>s_exit_sync_uuid := Some (uuid data)\<rparr> else s1)
      in s2\<lparr>s_published := s_published s2 @ [Pub_defer BEGIN]\<rparr>)"

text \<open>\<^verbatim>\<open>send_request_defer\<close> for a defer request with state \<open>state\<close>.\<close>

definition send_request_defer :: "sender \<Rightarrow> int \<Rightarrow> error + sender" where
  "send_request_defer s state =
     (case (if state = BEGIN then Inr (s, False)
            else if state = FLUSH_STATS then Inr (s, False)
            else if state = FLUSH_TB then Inr (s, False)
            else if state = FLUSH_SUM then Inr (s, False)
            else if state = FLUSH_DIR
            then Inr (if s_dir_watcher s
                      then s\<lparr>s_calls := s_calls s @ [Dir_watcher_finish], s_dir_watcher := False\<rparr>
                      else s, False)
            else if state = FLUSH_FP
            then Inr (if s_pusher s then s\<lparr>s_calls := s_calls s @ [Pusher_finish]\<rparr> else s,
                      False)
            else if state = FLUSH_FS
            then Inr (if s_fs s
                      then s\<lparr>s_calls := s_calls s @ [Fs_finish (s_exit_code s)], s_fs := False\<rparr>
                      else s, False)
            else if state = FLUSH_FINAL
            then Inr (s\<lparr>s_published := s_published s @ [Pub_final, Pub_footer]\<rparr>, False)
            else if state = END then Inr (s, True)
            else Inl (AssertionError Assert_unknown_state)) of
        Inl e \<Rightarrow> Inl e
      | Inr (s1, done) \<Rightarrow>
          if \<not> done
          then Inr (s1\<lparr>s_published := s_published s1 @ [Pub_defer (state + 1)]\<rparr>)
          else
            let s2 =
              (case s_exit_sync_uuid s1 of
                 None \<Rightarrow> s1
               | Some u \<Rightarrow>
                   if u = [] then s1
                   else
                     let s3 = (if s_pusher s1
                               then s1\<lparr>s_calls := s_calls s1 @ [Pusher_print_status, Pusher_join],
                                       s_pusher := False\<rparr>
                               else s1)
                     in s3\<lparr>s_result_q := s_result_q s3 @ [Exit_result u]\<rparr>)
            in Inr (s2\<lparr>s_exit_result := True\<rparr>))"

text \<open>The defer requests of a list delivered to the sender one after the other.\<close>

fun send_defers :: "sender \<Rightarrow> int list \<Rightarrow> error + sender" where
  "send_defers s [] = Inr s"
| "send_defers s (state # states) =
     (case send_request_defer s state of Inl e \<Rightarrow> Inl e | Inr s' \<Rightarrow> send_defers s' states)"

text \<open>
  \<^verbatim>\<open>send_request_poll_exit\<close>; \<open>alive\<close> is what \<^verbatim>\<open>pusher.get_status()\<close> reports when a
  pusher exists. The progress counters of the answer are left out.
\<close>

definition send_request_poll_exit :: "sender \<Rightarrow> pb_record \<Rightarrow> bool \<Rightarrow> sender" where
  "send_request_poll_exit s r pusher_alive =
     (if \<not> control_req_resp r then s
      else
        let alive = (if s_pusher s then pusher_alive else False)
        in if s_exit_result s \<and> \<not> alive
           then (let s1 = (if s_pusher s then s\<lparr>s_calls := s_calls s @ [Pusher_join]\<rparr> else s)
                 in s1\<lparr>s_result_q := s_result_q s1 @ [Poll_exit_result (uuid r) True]\<rparr>)
           else s\<lparr>s_result_q := s_result_q s @ [Poll_exit_result (uuid r) False]\<rparr>)"

subsection \<open>Resuming a run\<close>

text \<open>
  One of the two tails in the \<^verbatim>\<open>try\<close> block of \<^verbatim>\<open>_maybe_setup_resume\<close>:
  \<^verbatim>\<open>x = json.loads(tail); if x: x = json.loads(x[-1]); rt = x.get("_runtime", 0)\<close>.
  The result is the exception raised, if any, and the values of the two variables at
  that moment. \<^verbatim>\<open>json.loads(None)\<close> raises \<^verbatim>\<open>TypeError\<close>.
\<close>

definition load_tail ::
  "(string \<Rightarrow> json option) \<Rightarrow> string option \<Rightarrow> json \<Rightarrow> json \<Rightarrow> error option \<times> json \<times> json" where
  "load_tail loads tail x0 rt0 =
     (case (case tail of None \<Rightarrow> Inl TypeError | Some t \<Rightarrow> py_loads loads (JStr t)) of
        Inl e \<Rightarrow> (Some e, x0, rt0)
      | Inr x \<Rightarrow>
          if \<not> truthy x then (None, x, rt0)
          else (case py_last x of
                  Inl e \<Rightarrow> (Some e, x, rt0)
                | Inr l \<Rightarrow>
                    (case py_loads loads l of
                       Inl e \<Rightarrow> (Some e, x, rt0)
                     | Inr y \<Rightarrow>
                         (case py_get y ''_runtime'' (JInt 0) of
                            Inl e \<Rightarrow> (Some e, y, rt0)
                          | Inr rt \<Rightarrow> (None, y, rt)))))"

text \<open>\<^verbatim>\<open>json.loads(text or "{}")\<close>; \<open>loads_empty\<close> is the decoded \<^verbatim>\<open>"{}"\<close>.\<close>

definition loads_or_empty :: "(string \<Rightarrow> json option) \<Rightarrow> string option \<Rightarrow> error + json" where
  "loads_or_empty loads text =
     py_loads loads (JStr (case text of None \<Rightarrow> ''{}'' | Some t \<Rightarrow> if t = [] then ''{}'' else t))"

text \<open>The local variables of \<^verbatim>\<open>_maybe_setup_resume\<close> after its \<^verbatim>\<open>try\<close> block, and the
  exception that ended the block, if one did.\<close>

record resume_locals =
  l_history :: json
  l_events :: json
  l_config :: json
  l_summary :: json
  l_events_rt :: json
  l_history_rt :: json

definition resume_try ::
  "(string \<Rightarrow> json option) \<Rightarrow> resume_status \<Rightarrow> error option \<times> resume_locals" where
  "resume_try loads st =
     (let l0 = \<lparr>l_history = JObj [], l_events = JObj [], l_config = JObj [],
                l_summary = JObj [], l_events_rt = JInt 0, l_history_rt = JInt 0\<rparr>
      in case load_tail loads (historyTail st) (l_history l0) (l_history_rt l0) of
           (Some e, h, hrt) \<Rightarrow> (Some e, l0\<lparr>l_history := h, l_history_rt := hrt\<rparr>)
         | (None, h, hrt) \<Rightarrow>
             let l1 = l0\<lparr>l_history := h, l_history_rt := hrt\<rparr>
             in (case load_tail loads (eventsTail st) (l_events l1) (l_events_rt l1) of
                   (Some e, ev, ert) \<Rightarrow> (Some e, l1\<lparr>l_events := ev, l_events_rt := ert\<rparr>)
                 | (None, ev, ert) \<Rightarrow>
                     let l2 = l1\<lparr>l_events := ev, l_events_rt := ert\<rparr>
                     in (case loads_or_empty loads (status_config st) of
                           Inl e \<Rightarrow> (Some e, l2)
                         | Inr c \<Rightarrow>
                             let l3 = l2\<lparr>l_config := c\<rparr>
                             in (case loads_or_empty loads (summaryMetrics st) of
                                   Inl e \<Rightarrow> (Some e, l3)
                                 | Inr sm \<Rightarrow> (None, l3\<lparr>l_summary := sm\<rparr>)))))"

text \<open>
  \<^verbatim>\<open>_maybe_setup_resume(run)\<close>: the error it returns, if any, and the sender.
  \<open>status\<close> is the answer of the backend to \<^verbatim>\<open>run_resume_status\<close>, \<open>None\<close> when the
  run is not known. Only \<^verbatim>\<open>IndexError\<close> and \<^verbatim>\<open>ValueError\<close> are caught.
\<close>

definition maybe_setup_resume ::
  "(string \<Rightarrow> json option) \<Rightarrow> resume_status option \<Rightarrow> sender
   \<Rightarrow> error + (error_info option \<times> sender)" where
  "maybe_setup_resume loads status s =
     (case settings_resume s of
        None \<Rightarrow> Inr (None, s)
      | Some mode \<Rightarrow>
          if mode = [] then Inr (None, s)
          else (case status of
                  None \<Rightarrow>
                    if mode = ''must'' then Inr (Some Resume_must_but_no_run, s)
                    else Inr (None, s)
                | Some st \<Rightarrow>
                    if mode = ''never'' then Inr (Some Resume_never_but_run_exists, s)
                    else
                      (case resume_try loads st of
                         (exc, l) \<Rightarrow>
                           if exc \<noteq> None \<and> exc \<noteq> Some IndexError \<and> exc \<noteq> Some ValueError
                           then Inl (case exc of Some e \<Rightarrow> e | None \<Rightarrow> NotModelled)
                           else if exc \<noteq> None \<and> mode = ''must''
                           then Inr (Some Resume_must_but_could_not, s)
                           else
                             (case py_max (l_events_rt l) (l_history_rt l) of
                                Inl e \<Rightarrow> Inl e
                              | Inr runtime \<Rightarrow>
                                  (case (if truthy (l_history l)
                                         then (case py_get (l_history l) ''_step'' (JInt (- 1)) of
                                                 Inl e \<Rightarrow> Inl e
                                               | Inr v \<Rightarrow> py_add1 v)
                                         else Inr (JInt 0)) of
                                     Inl e \<Rightarrow> Inl e
                                   | Inr step \<Rightarrow>
                                       Inr (None,
                                            s\<lparr>s_resume_state :=
                                                 \<lparr>rs_step = step,
                                                  rs_history = historyLineCount st,
                                                  rs_events = eventsLineCount st,
                                                  rs_output = logLineCount st,
                                                  rs_runtime = runtime,
                                                  rs_summary = l_summary l,
                                                  rs_config = l_config l,
                                                  rs_resumed = True\<rparr>\<rparr>))))))"

text \<open>
  \<^verbatim>\<open>starting_step\<close> and the seconds of \<^verbatim>\<open>start_time\<close> are \<^verbatim>\<open>int64\<close> fields of the
  run message. Assigning an integer outside the range of \<^verbatim>\<open>int64\<close> to such a field
  raises \<^verbatim>\<open>ValueError\<close>. What the protobuf library does when a float is assigned is not
  modelled. \<^verbatim>\<open>Timestamp.FromSeconds\<close> assigns the seconds; versions of the library differ
  on seconds that fit \<^verbatim>\<open>int64\<close> but lie outside the years 1 to 9999 (from -62135596800
  to 253402300799), and that case is not modelled either.
\<close>

definition int64 :: "int \<Rightarrow> bool" where
  "int64 i = (- (2 ^ 63) \<le> i \<and> i < 2 ^ 63)"

definition timestamp_seconds :: "int \<Rightarrow> bool" where
  "timestamp_seconds t = (- 62135596800 \<le> t \<and> t \<le> 253402300799)"

text \<open>\<^verbatim>\<open>self._run.starting_step = self._resume_state["step"]\<close>.\<close>

definition set_starting_step :: "run_record \<Rightarrow> json \<Rightarrow> error + run_record" where
  "set_starting_step run step =
     (case step of
        JInt i \<Rightarrow> if int64 i then Inr (run\<lparr>run_starting_step := i\<rparr>) else Inl ValueError
      | _ \<Rightarrow> Inl NotModelled)"

text \<open>\<^verbatim>\<open>self._run.start_time.FromSeconds(start_time)\<close>.\<close>

definition set_start_time :: "run_record \<Rightarrow> json \<Rightarrow> error + run_record" where
  "set_start_time run start_time =
     (case start_time of
        JInt t \<Rightarrow>
          if \<not> int64 t then Inl ValueError
          else if \<not> timestamp_seconds t then Inl NotModelled
          else Inr (run\<lparr>run_start_time := t\<rparr>)
      | _ \<Rightarrow> Inl NotModelled)"

definition or_none :: "json \<Rightarrow> json" where
  "or_none x = (if truthy x then x else JNull)"

text \<open>The end of \<^verbatim>\<open>_init_run\<close>: the names the server gave replace those of the run.\<close>

definition run_with_server_names :: "server_run \<Rightarrow> run_record \<Rightarrow> run_record" where
  "run_with_server_names server run =
     (let r1 = (case sv_displayName server of
                  None \<Rightarrow> run
                | Some n \<Rightarrow> if n = [] then run else run\<lparr>run_display_name := n\<rparr>);
          r2 = (case sv_project_name server of
                  None \<Rightarrow> r1
                | Some n \<Rightarrow> if n = [] then r1 else r1\<lparr>run_project := n\<rparr>)
      in case sv_entity_name server of
           None \<Rightarrow> r2
         | Some n \<Rightarrow> if n = [] then r2 else r2\<lparr>run_entity := n\<rparr>)"

definition init_run_server :: "server_run \<Rightarrow> sender \<Rightarrow> run_record \<Rightarrow> sender" where
  "init_run_server server s run =
     (let s1 = (case sv_project_name server of
                  None \<Rightarrow> s
                | Some n \<Rightarrow> if n = [] then s else s\<lparr>s_project := Some n\<rparr>);
          s2 = (case sv_entity_name server of
                  None \<Rightarrow> s1
                | Some n \<Rightarrow> if n = [] then s1 else s1\<lparr>s_entity := Some n\<rparr>)
      in s2\<lparr>s_run := Some (run_with_server_names server run)\<rparr>)"

text \<open>
  \<^verbatim>\<open>_init_run(run, config_dict)\<close>. \<open>config_dict\<close> is \<open>JNull\<close> for \<^verbatim>\<open>None\<close>, and
  \<open>server\<close> is the answer of \<^verbatim>\<open>api.upsert_run\<close>. The upsert comes before the
  assignments to the run, so an exception of an assignment leaves the upsert made; the
  model returns the exception alone. The git repository, the storage id, the sweep and
  the settings of the API are left out.
\<close>

definition init_run :: "server_run \<Rightarrow> sender \<Rightarrow> run_record \<Rightarrow> json \<Rightarrow> error + sender" where
  "init_run server s run config_dict =
     (case py_int_minus (run_start_time run) (rs_runtime (s_resume_state s)) of
        Inl e \<Rightarrow> Inl e
      | Inr start_time \<Rightarrow>
          let s1 = s\<lparr>s_calls := s_calls s @ [Upsert_run (or_none config_dict)]\<rparr>;
              r1 = (if rs_resumed (s_resume_state s1) then run\<lparr>run_resumed := True\<rparr> else run)
          in case set_starting_step r1 (rs_step (s_resume_state s1)) of
               Inl e \<Rightarrow> Inl e
             | Inr r2 \<Rightarrow>
                 (case set_start_time r2 start_time of
                    Inl e \<Rightarrow> Inl e
                  | Inr r3 \<Rightarrow>
                      let r4 = r3\<lparr>run_config :=
                                    (case config_dict of JObj d \<Rightarrow> Some d | _ \<Rightarrow> None)\<rparr>
                      in case rs_summary (s_resume_state s1) of
                           JNull \<Rightarrow> Inr (init_run_server server s1 r4)
                         | JObj summary \<Rightarrow>
                             Inr (init_run_server server s1 (r4\<lparr>run_summary := Some summary\<rparr>))
                         | _ \<Rightarrow> Inl NotModelled))"

text \<open>
  \<^verbatim>\<open>send_run(data)\<close> for a record \<open>data\<close> that holds the run \<open>run\<close>. \<open>auto_project\<close> is
  what \<^verbatim>\<open>util.auto_project_name\<close> gives, \<open>status\<close> and \<open>server\<close> are the answers of
  the backend. \<^verbatim>\<open>config_dict.update(config_override)\<close> changes the dict that
  \<^verbatim>\<open>self._resume_state["config"]\<close> holds, since both names are the same object.
\<close>

definition send_run ::
  "(string \<Rightarrow> json option) \<Rightarrow> string \<Rightarrow> resume_status option \<Rightarrow> server_run
   \<Rightarrow> sender \<Rightarrow> pb_record \<Rightarrow> run_record \<Rightarrow> error + sender" where
  "send_run loads auto_project status server s data run0 =
     (let is_wandb_init = (s_run s = None);
          config_dict = (case run_config run0 of None \<Rightarrow> JNull | Some d \<Rightarrow> JObj d);
          s0 = (if config_dict \<noteq> JNull
                then s\<lparr>s_calls := s_calls s @ [Save_config_file config_dict]\<rparr> else s);
          run = (if is_wandb_init \<and> run_project run0 = []
                 then run0\<lparr>run_project := auto_project\<rparr> else run0)
      in case (if is_wandb_init then maybe_setup_resume loads status s0 else Inr (None, s0)) of
           Inl e \<Rightarrow> Inl e
         | Inr (Some err, s1) \<Rightarrow>
             Inr (if control_req_resp data
                  then s1\<lparr>s_result_q := s_result_q s1 @ [Run_result (uuid data) run (Some err)]\<rparr>
                  else s1)
         | Inr (None, s1) \<Rightarrow>
             (case (if rs_config (s_resume_state s1) \<noteq> JNull
                    then (case rs_config (s_resume_state s1) of
                            JObj resumed \<Rightarrow>
                              let config_override = (case config_dict of JObj d \<Rightarrow> d | _ \<Rightarrow> []);
                                  merged = JObj (dict_update resumed config_override)
                              in Inr (merged,
                                      s1\<lparr>s_resume_state := (s_resume_state s1)\<lparr>rs_config := merged\<rparr>,
                                          s_calls := s_calls s1 @ [Save_config_file merged]\<rparr>)
                          | _ \<Rightarrow> Inl AttributeError)
                    else Inr (config_dict, s1)) of
                Inl e \<Rightarrow> Inl e
              | Inr (config_dict, s2) \<Rightarrow>
                  (case init_run server s2 run config_dict of
                     Inl e \<Rightarrow> Inl e
                   | Inr s3 \<Rightarrow>
                       let s4 = (if control_req_resp data
                                 then s3\<lparr>s_result_q := s_result_q s3
                                           @ [Run_result (uuid data) (the (s_run s3)) None]\<rparr>
                                 else s3)
                       in Inr (if is_wandb_init
                               then s4\<lparr>s_fs := True, s_pusher := True, s_dir_watcher := True,
                                       s_calls := s_calls s4 @ [Start_run_threads]\<rparr>
                               else s4))))"

subsection \<open>An example of a resumed run\<close>

text \<open>
  The backend answers with a history tail whose last line has \<^verbatim>\<open>_step\<close> 15, an empty
  events tail and the config \<^verbatim>\<open>{"lr": 1, "seed": 2}\<close>; the run record overrides
  \<^verbatim>\<open>lr\<close> with 5.
\<close>

definition example_loads :: "string \<Rightarrow> json option" where
  "example_loads t =
     (if t = ''H'' then Some (JArr [JStr ''h14'', JStr ''h15''])
      else if t = ''h15'' then Some (JObj [(''_step'', JInt 15), (''_runtime'', JInt 40)])
      else if t = ''E'' then Some (JArr [])
      else if t = ''C'' then Some (JObj [(''lr'', JInt 1), (''seed'', JInt 2)])
      else if t = ''{}'' then Some (JObj [])
      else None)"

definition example_status :: resume_status where
  "example_status =
     \<lparr>historyTail = Some ''H'', eventsTail = Some ''E'', status_config = Some ''C'',
      summaryMetrics = None, historyLineCount = 16, eventsLineCount = 0, logLineCount = 0\<rparr>"

definition example_run :: run_record where
  "example_run =
     \<lparr>run_id = ''r1'', run_entity = '''', run_project = ''p'', run_display_name = '''',
      run_config = Some [(''lr'', JInt 5)], run_start_time = 100, run_resumed = False,
      run_starting_step = 0, run_summary = None\<rparr>"

section \<open>Properties of the log store\<close>

subsection \<open>Packing and unpacking\<close>

lemmas log_consts = LEVELDBLOG_HEADER_LEN_def LEVELDBLOG_BLOCK_LEN_def LEVELDBLOG_DATA_LEN_def
  LEVELDBLOG_FULL_def LEVELDBLOG_FIRST_def LEVELDBLOG_MIDDLE_def LEVELDBLOG_LAST_def

lemma length_le_bytes [simp]: "length (le_bytes n v) = n"
  by (induction n arbitrary: v) auto

lemma le_value_le_bytes: "le_value (le_bytes n v) = v mod 256 ^ n"
proof (induction n arbitrary: v)
  case 0
  then show ?case by simp
next
  case (Suc n)
  have "unat (of_nat (v mod 256) :: byte) = v mod 256"
    by (simp add: unat_of_nat)
  then show ?case
    using Suc[of "v div 256"]
    by (simp add: mod_mult2_eq)
qed

lemma unpack_pack_IHB:
  assumes "l < 65536" "t < 256"
  shows "unpack_IHB (le_bytes 4 (unat (c :: 32 word)) @ le_bytes 2 l @ le_bytes 1 t) = Inr (c, l, t)"
proof -
  have "unat c mod 256 ^ 4 = unat c"
    using unsigned_less[of c, where 'a=nat] by simp
  then have "of_nat (unat c mod 256 ^ 4) = c" by simp
  then show ?thesis
    using assms by (simp add: unpack_IHB_def le_value_le_bytes del: le_bytes.simps)
qed

lemma crc_seed_ok: "t \<le> 4 \<Longrightarrow> crc_seed t = Inr (crc_table ! t)"
  by (simp add: crc_seed_def crc_table_def LEVELDBLOG_LAST_def)

lemma length_chunk_bytes [simp]: "length (chunk_bytes t s) = 7 + length s"
  by (simp add: chunk_bytes_def)

subsection \<open>Writing a chunk, reading a chunk\<close>

declare middles_bytes.simps [simp del]

lemma write_record_ok:
  assumes "fp ds = Some (WFile bs)"
    and "length s + 7 \<le> 32768 - index ds mod 32768"
    and "1 \<le> t" "t \<le> 4"
  shows "write_record ds s (Some t) =
         Inr (ds\<lparr>fp := Some (WFile (bs @ chunk_bytes t s)), index := index ds + (7 + length s)\<rparr>)"
proof -
  have l: "length s < 65536" using assms(2) by simp
  show ?thesis
    using assms l
    by (simp add: write_record_def log_consts crc_seed_ok pack_IHB_def chunk_bytes_def Let_def
             del: le_bytes.simps)
qed

lemma write_record_None:
  assumes "fp ds = Some (WFile bs)"
    and "length s + 7 \<le> 32768 - index ds mod 32768"
  shows "write_record ds s None =
         Inr (ds\<lparr>fp := Some (WFile (bs @ chunk_bytes 1 s)), index := index ds + (7 + length s)\<rparr>)"
proof -
  have l: "length s < 65536" using assms(2) by simp
  show ?thesis
    using assms l
    by (simp add: write_record_def log_consts crc_seed_ok pack_IHB_def chunk_bytes_def Let_def
             del: le_bytes.simps)
qed

lemma scan_record_chunk:
  assumes "opened_for_scan ds"
    and "fp ds = Some (RFile (pre @ chunk_bytes t s @ suf) (length pre))"
    and "t \<le> 4" "length s < 65536"
  shows "scan_record ds =
         Inr (Some (t, s),
              ds\<lparr>fp := Some (RFile (pre @ chunk_bytes t s @ suf) (length pre + (7 + length s))),
                  index := index ds + 7 + length s\<rparr>)"
proof -
  let ?h = "le_bytes 4 (unat (crc32 s (crc_table ! t))) @ le_bytes 2 (length s) @ le_bytes 1 t"
  have cb: "chunk_bytes t s = ?h @ s" by (simp add: chunk_bytes_def)
  have lh: "length ?h = 7" by simp
  have r1: "fp_read (fp ds) 7 = Inr (?h, Some (RFile (pre @ chunk_bytes t s @ suf) (length pre + 7)))"
    using assms(2) lh by (simp add: cb del: le_bytes.simps)
  have r2: "fp_read (Some (RFile (pre @ chunk_bytes t s @ suf) (length pre + 7))) (length s)
            = Inr (s, Some (RFile (pre @ chunk_bytes t s @ suf) (length pre + 7 + length s)))"
    using lh by (simp add: cb del: le_bytes.simps)
  have u: "unpack_IHB ?h = Inr (crc32 s (crc_table ! t), length s, t)"
    using assms(3,4) by (intro unpack_pack_IHB) auto
  have ne: "?h \<noteq> []" using lh by (metis length_0_conv zero_neq_numeral)
  show ?thesis
    unfolding scan_record_def
    using assms(1,3) r1 r2 u lh ne
    by (simp add: log_consts crc_seed_ok add.assoc del: le_bytes.simps fp_read.simps)
qed

subsection \<open>What an append writes\<close>

lemma write_tail_ok:
  assumes "fp ds = Some (WFile bs)"
    and "index ds mod 32768 = 0"
    and "du + dl = length s"
  shows "(case write_middles ds s du dl of
            Inl e \<Rightarrow> Inl e
          | Inr (ds3, du', dl') \<Rightarrow> write_record ds3 (drop du' s) (Some LEVELDBLOG_LAST))
         = Inr (ds\<lparr>fp := Some (WFile (bs @ middles_bytes (drop du s))),
                   index := index ds + length (middles_bytes (drop du s))\<rparr>)"
  using assms
proof (induction ds s du dl arbitrary: bs rule: write_middles.induct)
  case (1 ds s du dl)
  have len: "length (drop du s) = dl" using 1(4) by simp
  show ?case
  proof (cases "dl > LEVELDBLOG_DATA_LEN")
    case True
    let ?m = "take LEVELDBLOG_DATA_LEN (drop du s)"
    have lm: "length ?m = 32761" using True len by (simp add: log_consts)
    let ?ds' = "ds\<lparr>fp := Some (WFile (bs @ chunk_bytes 3 ?m)), index := index ds + (7 + length ?m)\<rparr>"
    have w: "write_record ds ?m (Some LEVELDBLOG_MIDDLE) = Inr ?ds'"
      unfolding LEVELDBLOG_MIDDLE_def
      by (rule write_record_ok) (use 1(2,3) lm in auto)
    have i': "index ?ds' mod 32768 = 0" using 1(3) lm by simp
    have inv: "du + LEVELDBLOG_DATA_LEN + (dl - LEVELDBLOG_DATA_LEN) = length s"
      using True 1(4) by simp
    have mb: "middles_bytes (drop du s)
              = chunk_bytes 3 ?m @ middles_bytes (drop (du + LEVELDBLOG_DATA_LEN) s)"
      using True len
      by (subst middles_bytes.simps) (simp add: LEVELDBLOG_MIDDLE_def add.commute)
    have ih: "(case write_middles ?ds' s (du + LEVELDBLOG_DATA_LEN) (dl - LEVELDBLOG_DATA_LEN) of
                 Inl e \<Rightarrow> Inl e
               | Inr (ds3, du', dl') \<Rightarrow> write_record ds3 (drop du' s) (Some LEVELDBLOG_LAST))
              = Inr (?ds'\<lparr>fp := Some (WFile ((bs @ chunk_bytes 3 ?m)
                                   @ middles_bytes (drop (du + LEVELDBLOG_DATA_LEN) s))),
                         index := index ?ds'
                                  + length (middles_bytes (drop (du + LEVELDBLOG_DATA_LEN) s))\<rparr>)"
      by (rule 1(1)[OF True w _ i' inv]) simp
    have step: "write_middles ds s du dl
                = write_middles ?ds' s (du + LEVELDBLOG_DATA_LEN) (dl - LEVELDBLOG_DATA_LEN)"
      using True w by (subst write_middles.simps) simp
    show ?thesis
      unfolding step ih mb by (simp add: lm)
  next
    case False
    have mb: "middles_bytes (drop du s) = chunk_bytes 4 (drop du s)"
      using False len by (subst middles_bytes.simps) (simp add: LEVELDBLOG_LAST_def)
    have w: "write_record ds (drop du s) (Some LEVELDBLOG_LAST)
             = Inr (ds\<lparr>fp := Some (WFile (bs @ chunk_bytes 4 (drop du s))),
                       index := index ds + (7 + length (drop du s))\<rparr>)"
      unfolding LEVELDBLOG_LAST_def
      by (rule write_record_ok) (use 1(2,3) False len in \<open>auto simp: log_consts\<close>)
    have step: "write_middles ds s du dl = Inr (ds, du, dl)"
      using False by (subst write_middles.simps) simp
    show ?thesis
      unfolding step mb using w by simp
  qed
qed

lemma pad_index_mod_gen:
  fixes i n :: nat
  assumes "0 < n"
  shows "(i + (n - i mod n)) mod n = 0"
proof -
  have le: "i mod n \<le> i" "i mod n \<le> n" using assms by (simp_all add: less_imp_le)
  then have "i + (n - i mod n) = (i - i mod n) + n" by simp
  also have "i - i mod n = n * (i div n)" by (simp add: minus_mod_eq_mult_div)
  finally show ?thesis by simp
qed

lemma pad_index_mod: "(i + (32768 - i mod 32768)) mod 32768 = (0::nat)"
  by (rule pad_index_mod_gen) simp

lemma write_pad_ok:
  assumes "fp ds = Some (WFile bs)"
  shows "write_pad ds =
         Inr (ds\<lparr>fp := Some (WFile (bs @ pad_bytes (index ds))),
                 index := index ds + length (pad_bytes (index ds))\<rparr>,
              32768 - (index ds + length (pad_bytes (index ds))) mod 32768)"
proof (cases "32768 - index ds mod 32768 < 7")
  case True
  then show ?thesis
    using assms pad_index_mod[of "index ds"]
    by (simp add: write_pad_def pad_bytes_def log_consts Let_def)
next
  case False
  then have "write_pad ds = Inr (ds, 32768 - index ds mod 32768)"
    by (simp add: write_pad_def log_consts Let_def)
  moreover have "pad_bytes (index ds) = []"
    using False by (simp add: pad_bytes_def log_consts)
  moreover have "ds\<lparr>fp := Some (WFile bs), index := index ds\<rparr> = ds"
    using assms by simp
  ultimately show ?thesis by simp
qed

lemma space_after_pad:
  "7 \<le> 32768 - (i + length (pad_bytes i)) mod 32768"
proof (cases "32768 - i mod 32768 < 7")
  case True
  then show ?thesis
    using pad_index_mod[of i] by (simp add: pad_bytes_def log_consts)
next
  case False
  then show ?thesis by (simp add: pad_bytes_def log_consts)
qed

lemma write_body_ok:
  assumes fp1: "fp ds1 = Some (WFile b1)"
    and sl: "32768 - index ds1 mod 32768 = sl"
    and sl7: "7 \<le> sl"
  shows "(if length s + LEVELDBLOG_HEADER_LEN \<le> sl
          then write_record ds1 s None
          else
            let data_room = sl - LEVELDBLOG_HEADER_LEN
            in case write_record ds1 (take data_room s) (Some LEVELDBLOG_FIRST) of
                 Inl e \<Rightarrow> Inl e
               | Inr ds2 \<Rightarrow>
                   let data_used = data_room;
                       data_left = length s - data_room
                   in if data_left = 0 then Inl (AssertionError Assert_data_left)
                      else (case write_middles ds2 s data_used data_left of
                              Inl e \<Rightarrow> Inl e
                            | Inr (ds3, data_used, data_left) \<Rightarrow>
                                write_record ds3 (drop data_used s) (Some LEVELDBLOG_LAST)))
         = Inr (ds1\<lparr>fp := Some (WFile (b1 @ body_bytes sl s)),
                    index := index ds1 + length (body_bytes sl s)\<rparr>)"
proof (cases "length s + 7 \<le> sl")
  case True
  have w: "write_record ds1 s None
           = Inr (ds1\<lparr>fp := Some (WFile (b1 @ chunk_bytes 1 s)),
                      index := index ds1 + (7 + length s)\<rparr>)"
    by (rule write_record_None[OF fp1]) (use True sl in simp)
  have rb: "body_bytes sl s = chunk_bytes 1 s"
    using True by (simp add: body_bytes_def log_consts)
  show ?thesis
    unfolding rb using True w by (simp add: log_consts)
next
  case False
  define room where "room = sl - 7"
  have lt: "length (take room s) = room" using False sl7 room_def by simp
  define ds2 where "ds2 = ds1\<lparr>fp := Some (WFile (b1 @ chunk_bytes 2 (take room s))),
                      index := index ds1 + (7 + length (take room s))\<rparr>"
  have w: "write_record ds1 (take room s) (Some LEVELDBLOG_FIRST) = Inr ds2"
    unfolding LEVELDBLOG_FIRST_def ds2_def
    by (rule write_record_ok[OF fp1]) (use sl sl7 lt room_def in simp_all)
  have i2: "index ds2 mod 32768 = 0"
  proof -
    have "index ds2 = index ds1 + sl" using lt sl7 room_def by (simp add: ds2_def)
    also have "\<dots> = index ds1 + (32768 - index ds1 mod 32768)" using sl by simp
    finally show ?thesis using pad_index_mod[of "index ds1"] by simp
  qed
  have fp2: "fp ds2 = Some (WFile (b1 @ chunk_bytes 2 (take room s)))"
    by (simp add: ds2_def)
  have inv: "room + (length s - room) = length s" using False sl7 room_def by simp
  have tail: "(case write_middles ds2 s room (length s - room) of
                 Inl e \<Rightarrow> Inl e
               | Inr (ds3, du', dl') \<Rightarrow> write_record ds3 (drop du' s) (Some LEVELDBLOG_LAST))
              = Inr (ds2\<lparr>fp := Some (WFile ((b1 @ chunk_bytes 2 (take room s))
                                     @ middles_bytes (drop room s))),
                          index := index ds2 + length (middles_bytes (drop room s))\<rparr>)"
    by (rule write_tail_ok[OF fp2 i2 inv])
  have rb: "body_bytes sl s = chunk_bytes 2 (take room s) @ middles_bytes (drop room s)"
    using False by (simp add: body_bytes_def log_consts room_def)
  have nz: "length s - room \<noteq> 0" using False sl7 room_def by simp
  have nfit: "\<not> length s + LEVELDBLOG_HEADER_LEN \<le> sl"
    using False by (simp add: log_consts)
  have room': "sl - LEVELDBLOG_HEADER_LEN = room" by (simp add: room_def log_consts)
  have fin: "ds2\<lparr>fp := Some (WFile ((b1 @ chunk_bytes 2 (take room s))
                                     @ middles_bytes (drop room s))),
                          index := index ds2 + length (middles_bytes (drop room s))\<rparr>
            = ds1\<lparr>fp := Some (WFile (b1 @ body_bytes sl s)),
                    index := index ds1 + length (body_bytes sl s)\<rparr>"
    unfolding rb ds2_def by (simp add: lt)
  show ?thesis
    unfolding Let_def room'
    by (simp only: nfit if_False w sum.case nz tail fin)
qed

lemma write_data_ok:
  assumes "fp ds = Some (WFile bs)"
  shows "write_data ds s =
         Inr ((index ds, length (record_bytes (index ds) s), 0, 0),
              ds\<lparr>fp := Some (WFile (bs @ record_bytes (index ds) s)),
                  index := index ds + length (record_bytes (index ds) s)\<rparr>)"
proof -
  define ds1 where "ds1 = ds\<lparr>fp := Some (WFile (bs @ pad_bytes (index ds))),
                 index := index ds + length (pad_bytes (index ds))\<rparr>"
  define sl where "sl = 32768 - (index ds + length (pad_bytes (index ds))) mod 32768"
  have wp: "write_pad ds = Inr (ds1, sl)"
    unfolding ds1_def sl_def by (rule write_pad_ok[OF assms])
  have fp1: "fp ds1 = Some (WFile (bs @ pad_bytes (index ds)))" by (simp add: ds1_def)
  have sl1: "32768 - index ds1 mod 32768 = sl" by (simp add: ds1_def sl_def)
  have sl7: "7 \<le> sl" unfolding sl_def by (rule space_after_pad)
  note body = write_body_ok[OF fp1 sl1 sl7, of s, unfolded Let_def]
  have rb: "record_bytes (index ds) s = pad_bytes (index ds) @ body_bytes sl s"
    by (simp add: record_bytes_def sl_def log_consts)
  show ?thesis
    unfolding write_data_def Let_def wp prod.case sum.case body rb
    by (simp add: ds1_def)
qed

lemma write_all_ok:
  assumes "fp ds = Some (WFile bs)"
  shows "write_all ds ps =
         Inr (ds\<lparr>fp := Some (WFile (bs @ log_bytes (index ds) ps)),
                 index := index ds + length (log_bytes (index ds) ps)\<rparr>)"
  using assms
proof (induction ps arbitrary: ds bs)
  case Nil
  then show ?case by simp
next
  case (Cons s ss)
  define ds' where "ds' = ds\<lparr>fp := Some (WFile (bs @ record_bytes (index ds) s)),
                  index := index ds + length (record_bytes (index ds) s)\<rparr>"
  have fp': "fp ds' = Some (WFile (bs @ record_bytes (index ds) s))" by (simp add: ds'_def)
  have w: "write_data ds s = Inr ((index ds, length (record_bytes (index ds) s), 0, 0), ds')"
    unfolding ds'_def by (rule write_data_ok[OF Cons.prems])
  show ?case
    using Cons.IH[OF fp'] w by (simp add: ds'_def add.assoc)
qed

lemma write_record_bad_fp:
  assumes "\<And>x. fp_write (fp ds) x = Inl e"
    and "length s + 7 \<le> 32768 - index ds mod 32768"
    and "t = None \<or> t = Some 2"
  shows "write_record ds s t = Inl e"
proof -
  have l: "length s < 65536" using assms(2) by simp
  show ?thesis
    using assms l
    by (auto simp: write_record_def log_consts crc_seed_ok pack_IHB_def Let_def
             simp del: le_bytes.simps)
qed

lemma write_data_bad_fp:
  assumes "\<And>x. fp_write (fp ds) x = Inl e"
  shows "write_data ds s = Inl e"
proof (cases "32768 - index ds mod 32768 < 7")
  case True
  then have "write_pad ds = Inl e"
    using assms by (simp add: write_pad_def log_consts Let_def)
  then show ?thesis by (simp add: write_data_def Let_def)
next
  case False
  define sl where "sl = 32768 - index ds mod 32768"
  have wp: "write_pad ds = Inr (ds, sl)"
    using False by (simp add: write_pad_def log_consts Let_def sl_def)
  show ?thesis
  proof (cases "length s + 7 \<le> sl")
    case True
    have "write_record ds s None = Inl e"
      by (rule write_record_bad_fp[OF assms]) (use True sl_def in simp_all)
    with True show ?thesis
      by (simp add: write_data_def Let_def wp log_consts)
  next
    case nofit: False
    have "write_record ds (take (sl - 7) s) (Some LEVELDBLOG_FIRST) = Inl e"
      by (rule write_record_bad_fp[OF assms]) (use False sl_def in \<open>simp_all add: log_consts\<close>)
    with nofit show ?thesis
      by (simp add: write_data_def Let_def wp log_consts)
  qed
qed

lemma fp_write_cases:
  "(\<exists>bs. f = Some (WFile bs)) \<or> (\<exists>e. e \<noteq> AssertionError Assert_fits \<and> (\<forall>x. fp_write f x = Inl e))"
proof (cases f)
  case None
  then show ?thesis by auto
next
  case (Some a)
  then show ?thesis by (cases a) auto
qed

text \<open>
  Claim C5. Whatever the index of the store and whatever payloads are appended, no call
  of \<^verbatim>\<open>_write_record\<close> made by \<^verbatim>\<open>_write_data\<close> fails its space check: a sequence
  of appends never raises that assertion, and on a store whose file is open for
  writing every append of the sequence returns.
\<close>

theorem append_never_violates_fit:
  "write_all ds ps \<noteq> Inl (AssertionError Assert_fits)
   \<and> (\<forall>bs. fp ds = Some (WFile bs) \<longrightarrow> (\<exists>ds'. write_all ds ps = Inr ds'))"
proof -
  have ok: "\<exists>ds'. write_all ds ps = Inr ds'" if "fp ds = Some (WFile bs)" for bs
    using write_all_ok[OF that] by simp
  have "write_all ds ps \<noteq> Inl (AssertionError Assert_fits)"
  proof (cases "\<exists>bs. fp ds = Some (WFile bs)")
    case True
    then show ?thesis using ok by auto
  next
    case False
    then obtain e where e: "e \<noteq> AssertionError Assert_fits" "\<And>x. fp_write (fp ds) x = Inl e"
      using fp_write_cases[of "fp ds"] by auto
    show ?thesis
    proof (cases ps)
      case Nil
      then show ?thesis by simp
    next
      case (Cons s ss)
      then show ?thesis using write_data_bad_fp[OF e(2), of s] e(1) by simp
    qed
  qed
  with ok show ?thesis by blast
qed

theorem append_never_violates_fit_witness:
  "fp (init_datastore\<lparr>fp := Some (WFile [])\<rparr>) = Some (WFile [])
   \<and> (\<exists>ds'. write_all (init_datastore\<lparr>fp := Some (WFile [])\<rparr>) [[1, 2], []] = Inr ds')"
  using append_never_violates_fit[of "init_datastore\<lparr>fp := Some (WFile [])\<rparr>" "[[1, 2], []]"]
  by (simp add: init_datastore_def)

subsection \<open>What a scan reads\<close>

declare scan_loop.simps [simp del]
declare scan_all.simps [simp del]

lemma scan_loop_middles:
  assumes "opened_for_scan rs"
    and "fp rs = Some (RFile (pre @ middles_bytes r @ suf) (length pre))"
  shows "scan_loop rs acc =
         Inr (Some (acc @ r),
              rs\<lparr>fp := Some (RFile (pre @ middles_bytes r @ suf)
                               (length pre + length (middles_bytes r))),
                  index := index rs + length (middles_bytes r)\<rparr>)"
  using assms
proof (induction r arbitrary: rs pre acc rule: middles_bytes.induct)
  case (1 r)
  show ?case
  proof (cases "length r > LEVELDBLOG_DATA_LEN")
    case True
    define m where "m = take LEVELDBLOG_DATA_LEN r"
    define r' where "r' = drop LEVELDBLOG_DATA_LEN r"
    have mb: "middles_bytes r = chunk_bytes 3 m @ middles_bytes r'"
      using True by (subst middles_bytes.simps) (simp add: m_def r'_def LEVELDBLOG_MIDDLE_def)
    have lm: "length m = 32761" using True by (simp add: m_def log_consts)
    define fl where "fl = pre @ middles_bytes r @ suf"
    have fl1: "fl = pre @ chunk_bytes 3 m @ (middles_bytes r' @ suf)"
      by (simp add: fl_def mb)
    have fl2: "fl = (pre @ chunk_bytes 3 m) @ middles_bytes r' @ suf"
      by (simp add: fl_def mb)
    define rs' where "rs' = rs\<lparr>fp := Some (RFile fl (length pre + (7 + length m))),
                                index := index rs + 7 + length m\<rparr>"
    have sr: "scan_record rs = Inr (Some (3, m), rs')"
      unfolding rs'_def fl1
      by (rule scan_record_chunk) (use 1(2,3) lm in \<open>simp_all add: fl_def[symmetric] fl1[symmetric]\<close>)
    have o': "opened_for_scan rs'" using 1(2) by (simp add: rs'_def)
    have fp': "fp rs' = Some (RFile ((pre @ chunk_bytes 3 m) @ middles_bytes r' @ suf)
                               (length (pre @ chunk_bytes 3 m)))"
      by (simp add: rs'_def fl2)
    have ih: "scan_loop rs' (acc @ m) =
              Inr (Some ((acc @ m) @ r'),
                   rs'\<lparr>fp := Some (RFile ((pre @ chunk_bytes 3 m) @ middles_bytes r' @ suf)
                                     (length (pre @ chunk_bytes 3 m) + length (middles_bytes r'))),
                        index := index rs' + length (middles_bytes r')\<rparr>)"
      using 1(1)[OF True o' fp'[unfolded r'_def], of "acc @ m"] by (simp add: r'_def)
    have "scan_loop rs acc = scan_loop rs' (acc @ m)"
      by (subst scan_loop.simps) (simp add: sr log_consts)
    also note ih
    finally show ?thesis
      by (simp add: rs'_def mb m_def r'_def add.assoc)
  next
    case False
    have mb: "middles_bytes r = chunk_bytes 4 r"
      using False by (subst middles_bytes.simps) (simp add: LEVELDBLOG_LAST_def)
    have lr: "length r < 65536" using False by (simp add: log_consts)
    have sr: "scan_record rs =
              Inr (Some (4, r),
                   rs\<lparr>fp := Some (RFile (pre @ chunk_bytes 4 r @ suf) (length pre + (7 + length r))),
                       index := index rs + 7 + length r\<rparr>)"
      by (rule scan_record_chunk) (use 1(2,3) lr mb in simp_all)
    show ?thesis
      by (subst scan_loop.simps) (simp add: sr mb log_consts add.assoc)
  qed
qed

lemma scan_pad_ok:
  assumes "fp rs = Some (RFile (pre @ pad_bytes (index rs) @ suf) (length pre))"
  shows "scan_pad rs =
         Inr (rs\<lparr>fp := Some (RFile (pre @ pad_bytes (index rs) @ suf)
                                (length pre + length (pad_bytes (index rs)))),
                 index := index rs + length (pad_bytes (index rs))\<rparr>)"
proof (cases "32768 - index rs mod 32768 < 7")
  case True
  then have pb: "pad_bytes (index rs) = replicate (32768 - index rs mod 32768) 0"
    by (simp add: pad_bytes_def log_consts)
  show ?thesis
    using True assms unfolding pb
    by (simp add: scan_pad_def log_consts Let_def)
next
  case False
  then have pb: "pad_bytes (index rs) = []"
    by (simp add: pad_bytes_def log_consts)
  have "rs\<lparr>fp := Some (RFile (pre @ suf) (length pre)), index := index rs\<rparr> = rs"
    using assms by (simp add: pb)
  then show ?thesis
    using False by (simp add: scan_pad_def log_consts Let_def pb)
qed

lemma scan_data_record:
  assumes o: "opened_for_scan rs"
    and f: "fp rs = Some (RFile (pre @ record_bytes (index rs) s @ suf) (length pre))"
  shows "scan_data rs =
         Inr (Some s,
              rs\<lparr>fp := Some (RFile (pre @ record_bytes (index rs) s @ suf)
                               (length pre + length (record_bytes (index rs) s))),
                  index := index rs + length (record_bytes (index rs) s)\<rparr>)"
proof -
  define pad where "pad = pad_bytes (index rs)"
  define sl where "sl = 32768 - (index rs + length pad) mod 32768"
  define body where "body = body_bytes sl s"
  define fl where "fl = pre @ record_bytes (index rs) s @ suf"
  have rb: "record_bytes (index rs) s = pad @ body"
    by (simp add: record_bytes_def pad_def body_def sl_def log_consts)
  have sl7: "7 \<le> sl" unfolding sl_def pad_def by (rule space_after_pad)
  have slle: "sl \<le> 32768" by (simp add: sl_def)
  define rs1 where "rs1 = rs\<lparr>fp := Some (RFile fl (length pre + length pad)),
                              index := index rs + length pad\<rparr>"
  have sp: "scan_pad rs = Inr rs1"
  proof -
    have "fp rs = Some (RFile (pre @ pad_bytes (index rs) @ (body @ suf)) (length pre))"
      using f by (simp add: rb pad_def)
    from scan_pad_ok[OF this] show ?thesis
      by (simp add: rs1_def fl_def rb pad_def)
  qed
  have o1: "opened_for_scan rs1" using o by (simp add: rs1_def)
  show ?thesis
  proof (cases "length s + 7 \<le> sl")
    case True
    have b: "body = chunk_bytes 1 s"
      using True by (simp add: body_def body_bytes_def log_consts)
    have f1: "fp rs1 = Some (RFile ((pre @ pad) @ chunk_bytes 1 s @ suf) (length (pre @ pad)))"
      by (simp add: rs1_def fl_def rb b)
    have "scan_record rs1 =
          Inr (Some (1, s),
               rs1\<lparr>fp := Some (RFile ((pre @ pad) @ chunk_bytes 1 s @ suf)
                                 (length (pre @ pad) + (7 + length s))),
                    index := index rs1 + 7 + length s\<rparr>)"
      by (rule scan_record_chunk[OF o1 f1]) (use True slle in simp_all)
    then show ?thesis
      by (simp add: scan_data_def sp log_consts rs1_def rb b fl_def add.assoc)
  next
    case False
    define room where "room = sl - 7"
    define h where "h = take room s"
    define r where "r = drop room s"
    have b: "body = chunk_bytes 2 h @ middles_bytes r"
      using False by (simp add: body_def body_bytes_def log_consts h_def r_def room_def)
    have lh: "length h < 65536" using slle by (simp add: h_def room_def)
    have f1: "fp rs1 = Some (RFile ((pre @ pad) @ chunk_bytes 2 h @ (middles_bytes r @ suf))
                               (length (pre @ pad)))"
      by (simp add: rs1_def fl_def rb b)
    define rs2 where "rs2 = rs1\<lparr>fp := Some (RFile fl (length (pre @ pad) + (7 + length h))),
                                index := index rs1 + 7 + length h\<rparr>"
    have sr: "scan_record rs1 = Inr (Some (2, h), rs2)"
      using scan_record_chunk[OF o1 f1 _ lh]
      by (simp add: rs2_def fl_def rb b)
    have o2: "opened_for_scan rs2" using o1 by (simp add: rs2_def)
    have f2: "fp rs2 = Some (RFile ((pre @ pad @ chunk_bytes 2 h) @ middles_bytes r @ suf)
                               (length (pre @ pad @ chunk_bytes 2 h)))"
      by (simp add: rs2_def fl_def rb b)
    have sloop: "scan_loop rs2 h =
          Inr (Some (h @ r),
               rs2\<lparr>fp := Some (RFile ((pre @ pad @ chunk_bytes 2 h) @ middles_bytes r @ suf)
                              (length (pre @ pad @ chunk_bytes 2 h) + length (middles_bytes r))),
                    index := index rs2 + length (middles_bytes r)\<rparr>)"
      by (rule scan_loop_middles[OF o2 f2])
    have hr: "h @ r = s" by (simp add: h_def r_def)
    show ?thesis
      unfolding scan_data_def sp sum.case sr prod.case option.case
      by (simp add: log_consts sloop hr)
         (simp add: rs2_def rs1_def rb b fl_def add.assoc)
  qed
qed

lemma scan_data_eof:
  assumes o: "opened_for_scan rs"
    and f: "fp rs = Some (RFile fl (length fl))"
  shows "scan_data rs =
         (if 32768 - index rs mod 32768 < 7 then Inl (AssertionError Assert_pad)
          else Inr (None, rs))"
proof (cases "32768 - index rs mod 32768 < 7")
  case True
  have "replicate (32768 - index rs mod 32768) (0::byte) \<noteq> []" by simp
  then have "scan_pad rs = Inl (AssertionError Assert_pad)"
    using True f by (simp add: scan_pad_def log_consts Let_def del: replicate_empty)
  with True show ?thesis by (simp add: scan_data_def)
next
  case False
  then have sp: "scan_pad rs = Inr rs"
    by (simp add: scan_pad_def log_consts Let_def)
  have "rs\<lparr>fp := Some (RFile fl (length fl))\<rparr> = rs" using f by simp
  then have "scan_record rs = Inr (None, rs)"
    using o f by (simp add: scan_record_def log_consts)
  with False sp show ?thesis by (simp add: scan_data_def)
qed

lemma scan_all_log:
  assumes "opened_for_scan rs"
    and "fp rs = Some (RFile (pre @ log_bytes (index rs) ps) (length pre))"
  shows "scan_all rs =
         (ps, if 32768 - (index rs + length (log_bytes (index rs) ps)) mod 32768 < 7
              then Raised (AssertionError Assert_pad) else End_of_stream)"
  using assms
proof (induction ps arbitrary: rs pre)
  case Nil
  then have "fp rs = Some (RFile pre (length pre))" by simp
  from scan_data_eof[OF Nil(1) this] show ?case
    by (subst scan_all.simps) simp
next
  case (Cons s ss)
  define rb where "rb = record_bytes (index rs) s"
  define tl where "tl = log_bytes (index rs + length rb) ss"
  define rs' where "rs' = rs\<lparr>fp := Some (RFile (pre @ rb @ tl) (length pre + length rb)),
                              index := index rs + length rb\<rparr>"
  have f: "fp rs = Some (RFile (pre @ record_bytes (index rs) s @ tl) (length pre))"
    using Cons.prems(2) by (simp add: rb_def tl_def)
  have sd: "scan_data rs = Inr (Some s, rs')"
    using scan_data_record[OF Cons.prems(1) f] by (simp add: rs'_def rb_def)
  have o': "opened_for_scan rs'" using Cons.prems(1) by (simp add: rs'_def)
  have f': "fp rs' = Some (RFile ((pre @ rb) @ log_bytes (index rs') ss) (length (pre @ rb)))"
    by (simp add: rs'_def tl_def)
  note ih = Cons.IH[OF o' f']
  have i': "index rs' + length (log_bytes (index rs') ss)
            = index rs + length (log_bytes (index rs) (s # ss))"
    by (simp add: rs'_def rb_def)
  show ?case
    by (subst scan_all.simps) (simp add: sd ih i' del: log_bytes.simps)
qed

subsection \<open>Writing a file and scanning it\<close>

lemma write_header_ok:
  assumes "fp ds = Some (WFile bs)"
  shows "write_header ds = Inr (ds\<lparr>fp := Some (WFile (bs @ header_bytes)), index := index ds + 7\<rparr>)"
  using assms
  by (simp add: write_header_def pack_4sHB_def header_bytes_def LEVELDBLOG_HEADER_IDENT_def
      LEVELDBLOG_HEADER_MAGIC_def LEVELDBLOG_HEADER_VERSION_def)

lemma length_header_bytes [simp]: "length header_bytes = 7"
  by (simp add: header_bytes_def LEVELDBLOG_HEADER_IDENT_def)

lemma read_header_ok:
  assumes "fp ds = Some (RFile (header_bytes @ rest) 0)"
  shows "read_header ds =
         Inr (ds\<lparr>fp := Some (RFile (header_bytes @ rest) 7), index := index ds + 7\<rparr>)"
proof -
  have u: "unpack_4sHB header_bytes
           = Inr (LEVELDBLOG_HEADER_IDENT, LEVELDBLOG_HEADER_MAGIC, LEVELDBLOG_HEADER_VERSION)"
    by (simp add: unpack_4sHB_def header_bytes_def LEVELDBLOG_HEADER_IDENT_def
        LEVELDBLOG_HEADER_MAGIC_def LEVELDBLOG_HEADER_VERSION_def le_value_le_bytes
        del: le_bytes.simps)
  show ?thesis
    using assms by (simp add: read_header_def Let_def u)
qed

lemma write_session_ok:
  assumes "name \<notin> dom fs"
  shows "write_session PY3 fs name ps = Inr (fs(name \<mapsto> header_bytes @ log_bytes 7 ps))"
proof -
  define ds1 where "ds1 = init_datastore\<lparr>fname := name, fp := Some (WFile header_bytes), index := 7\<rparr>"
  have wh: "write_header (init_datastore\<lparr>fname := name, fp := Some (WFile [])\<rparr>) = Inr ds1"
    by (subst write_header_ok[where bs="[]"]) (simp_all add: ds1_def init_datastore_def)
  have ow: "open_for_write PY3 fs init_datastore name = Inr (fs(name \<mapsto> []), ds1)"
    using assms by (auto simp: open_for_write_def Let_def wh)
  have wa: "write_all ds1 ps
            = Inr (ds1\<lparr>fp := Some (WFile (header_bytes @ log_bytes (index ds1) ps)),
                       index := index ds1 + length (log_bytes (index ds1) ps)\<rparr>)"
    by (rule write_all_ok) (simp add: ds1_def)
  show ?thesis
    by (simp add: write_session_def ow wa close_def) (simp add: ds1_def)
qed

lemma scan_session_log:
  assumes "fs name = Some (header_bytes @ log_bytes 7 ps)"
  shows "scan_session fs name =
         Inr (ps, if 32768 - (7 + length (log_bytes 7 ps)) mod 32768 < 7
                  then Raised (AssertionError Assert_pad) else End_of_stream)"
proof -
  define fl where "fl = header_bytes @ log_bytes 7 ps"
  define ds1 where "ds1 = init_datastore\<lparr>fname := name, fp := Some (RFile fl 7), index := 7,
                                          opened_for_scan := True\<rparr>"
  have rh: "read_header (init_datastore\<lparr>fname := name, fp := Some (RFile fl 0), index := 0,
                                opened_for_scan := True\<rparr>) = Inr ds1"
    by (subst read_header_ok[where rest="log_bytes 7 ps"]) (simp_all add: ds1_def fl_def)
  have os: "open_for_scan fs init_datastore name = Inr (fs, ds1)"
    using assms by (simp add: open_for_scan_def rh fl_def[symmetric])
  have "scan_all ds1 =
         (ps, if 32768 - (index ds1 + length (log_bytes (index ds1) ps)) mod 32768 < 7
              then Raised (AssertionError Assert_pad) else End_of_stream)"
    by (rule scan_all_log[where pre=header_bytes]) (simp_all add: ds1_def fl_def)
  then show ?thesis
    by (simp add: scan_session_def os) (simp add: ds1_def)
qed

lemma round_trip_general:
  assumes "name \<notin> dom fs" and "write_session PY3 fs name ps = Inr fs'"
  shows "scan_session fs' name =
         Inr (ps, if 32768 - (7 + length (log_bytes 7 ps)) mod 32768 < 7
                  then Raised (AssertionError Assert_pad) else End_of_stream)"
proof -
  have "fs' = fs(name \<mapsto> header_bytes @ log_bytes 7 ps)"
    using assms write_session_ok[OF assms(1), of PY3 ps] by simp
  then have "fs' name = Some (header_bytes @ log_bytes 7 ps)" by simp
  then show ?thesis by (rule scan_session_log)
qed

lemma record_bytes_fits:
  assumes "7 \<le> 32768 - i mod 32768" "length s + 7 \<le> 32768 - i mod 32768"
  shows "record_bytes i s = chunk_bytes 1 s"
  using assms by (simp add: record_bytes_def pad_bytes_def body_bytes_def log_consts)

text \<open>
  Claim C1. Appending payloads to a new file and scanning it returns the payloads in
  order (\<open>round_trip_general\<close>), but the scan ends with end-of-stream only when at
  least 7 bytes of the last block are left. One payload of 32751 bytes ends the file
  3 bytes before the block boundary: the scan returns the payload, and the next
  \<^verbatim>\<open>scan_data\<close> reads the missing padding at the end of the file and fails its
  assertion instead of returning \<^verbatim>\<open>None\<close>.
\<close>

theorem round_trip_fails_near_block_end:
  "write_session True Map.empty ''run.wandb'' [replicate 32751 0]
     = Inr [''run.wandb'' \<mapsto> header_bytes @ chunk_bytes 1 (replicate 32751 0)]
   \<and> scan_session [''run.wandb'' \<mapsto> header_bytes @ chunk_bytes 1 (replicate 32751 0)] ''run.wandb''
     = Inr ([replicate 32751 0], Raised (AssertionError Assert_pad))"
proof -
  have rb: "record_bytes 7 (replicate 32751 0) = chunk_bytes 1 (replicate 32751 0)"
    by (rule record_bytes_fits) simp_all
  have lb: "log_bytes 7 [replicate 32751 0] = chunk_bytes 1 (replicate 32751 0)"
    by (simp add: rb)
  have w: "write_session True Map.empty ''run.wandb'' [replicate 32751 0]
           = Inr [''run.wandb'' \<mapsto> header_bytes @ chunk_bytes 1 (replicate 32751 0)]"
    by (subst write_session_ok) (simp_all add: lb del: log_bytes.simps)
  have "scan_session [''run.wandb'' \<mapsto> header_bytes @ log_bytes 7 [replicate 32751 0]] ''run.wandb''
        = Inr ([replicate 32751 0],
               if 32768 - (7 + length (log_bytes 7 [replicate 32751 0])) mod 32768 < 7
               then Raised (AssertionError Assert_pad) else End_of_stream)"
    by (rule scan_session_log) simp
  then have s: "scan_session [''run.wandb'' \<mapsto> header_bytes @ chunk_bytes 1 (replicate 32751 0)] ''run.wandb''
     = Inr ([replicate 32751 0], Raised (AssertionError Assert_pad))"
    unfolding lb by simp
  from w s show ?thesis by simp
qed

subsection \<open>Block boundaries\<close>

lemma middles_bytes_short:
  "length r \<le> 32761 \<Longrightarrow> middles_bytes r = chunk_bytes 4 r"
  by (subst middles_bytes.simps) (simp add: log_consts)

text \<open>
  Claim C3. At a write position where the payload and its 7-byte header fill the rest
  of the block exactly, the append writes one FULL chunk and no padding; a payload one
  byte longer is written as a FIRST chunk that fills the block and a LAST chunk with the
  remaining byte, with no MIDDLE chunk and no padding. The length the append returns is
  the payload length plus 7 for each chunk written.
\<close>

theorem block_boundary:
  assumes "fp ds = Some (WFile bs)"
    and "length s + 7 = LEVELDBLOG_BLOCK_LEN - index ds mod LEVELDBLOG_BLOCK_LEN"
    and "length s' = length s + 1"
  shows "write_data ds s =
           Inr ((index ds, length s + 7, 0, 0),
                ds\<lparr>fp := Some (WFile (bs @ chunk_bytes LEVELDBLOG_FULL s)),
                    index := index ds + (length s + 7)\<rparr>)
       \<and> write_data ds s' =
           Inr ((index ds, length s' + 7 + 7, 0, 0),
                ds\<lparr>fp := Some (WFile (bs @ chunk_bytes LEVELDBLOG_FIRST (take (length s) s')
                                         @ chunk_bytes LEVELDBLOG_LAST (drop (length s) s'))),
                    index := index ds + (length s' + 7 + 7)\<rparr>)"
proof -
  have sl: "32768 - index ds mod 32768 = length s + 7"
    using assms(2) by (simp add: log_consts)
  then have pb: "pad_bytes (index ds) = []"
    by (simp add: pad_bytes_def log_consts)
  have rb: "record_bytes (index ds) s = chunk_bytes 1 s"
    by (rule record_bytes_fits) (simp_all add: sl)
  have room: "32768 - index ds mod 32768 - 7 = length s" using sl by simp
  have "body_bytes (32768 - index ds mod 32768) s'
        = chunk_bytes 2 (take (length s) s') @ middles_bytes (drop (length s) s')"
    unfolding body_bytes_def LEVELDBLOG_HEADER_LEN_def room
    using assms(3) sl by (simp add: log_consts)
  moreover have "middles_bytes (drop (length s) s') = chunk_bytes 4 (drop (length s) s')"
    by (rule middles_bytes_short) (simp add: assms(3))
  ultimately have rb': "record_bytes (index ds) s'
        = chunk_bytes 2 (take (length s) s') @ chunk_bytes 4 (drop (length s) s')"
    by (simp add: record_bytes_def pb log_consts)
  have l': "length (record_bytes (index ds) s') = length s' + 7 + 7"
    unfolding rb' using assms(3) by simp
  show ?thesis
    using write_data_ok[OF assms(1), of s] write_data_ok[OF assms(1), of s'] l'
    by (simp add: rb rb' log_consts)
qed

theorem block_boundary_witness:
  "fp (init_datastore\<lparr>fp := Some (WFile []), index := 32760\<rparr>) = Some (WFile [])
   \<and> length [5::byte] + 7 = LEVELDBLOG_BLOCK_LEN - index (init_datastore\<lparr>fp := Some (WFile []), index := 32760\<rparr>) mod LEVELDBLOG_BLOCK_LEN
   \<and> length [5, 6::byte] = length [5::byte] + 1
   \<and> write_data (init_datastore\<lparr>fp := Some (WFile []), index := 32760\<rparr>) [5] =
           Inr ((32760, 8, 0, 0),
                init_datastore\<lparr>fp := Some (WFile (chunk_bytes LEVELDBLOG_FULL [5])),
                    index := 32768\<rparr>)
   \<and> write_data (init_datastore\<lparr>fp := Some (WFile []), index := 32760\<rparr>) [5, 6] =
           Inr ((32760, 16, 0, 0),
                init_datastore\<lparr>fp := Some (WFile (chunk_bytes LEVELDBLOG_FIRST [5]
                                         @ chunk_bytes LEVELDBLOG_LAST [6])),
                    index := 32776\<rparr>)"
  using block_boundary[of "init_datastore\<lparr>fp := Some (WFile []), index := 32760\<rparr>" "[]" "[5]" "[5, 6]"]
  by (simp add: init_datastore_def LEVELDBLOG_BLOCK_LEN_def)

subsection \<open>Truncated records\<close>

lemma scan_loop_truncated:
  assumes "opened_for_scan rs"
    and "fp rs = Some (RFile (pre @ concat (map (chunk_bytes LEVELDBLOG_MIDDLE) ms)) (length pre))"
    and "\<forall>m \<in> set ms. length m < 65536"
  shows "scan_loop rs acc =
         Inr (None, rs\<lparr>fp := Some (RFile (pre @ concat (map (chunk_bytes LEVELDBLOG_MIDDLE) ms))
                                       (length pre + length (concat (map (chunk_bytes LEVELDBLOG_MIDDLE) ms)))),
                        index := index rs + length (concat (map (chunk_bytes LEVELDBLOG_MIDDLE) ms))\<rparr>)"
  using assms
proof (induction ms arbitrary: rs pre acc)
  case Nil
  then have f: "fp rs = Some (RFile pre (length pre))" by simp
  then have "rs\<lparr>fp := Some (RFile pre (length pre))\<rparr> = rs" by simp
  then have "scan_record rs = Inr (None, rs)"
    using Nil(1) f by (simp add: scan_record_def log_consts)
  moreover have "rs\<lparr>fp := Some (RFile pre (length pre)), index := index rs\<rparr> = rs"
    using f by simp
  ultimately show ?case
    by (subst scan_loop.simps) simp
next
  case (Cons m ms)
  define tl where "tl = concat (map (chunk_bytes LEVELDBLOG_MIDDLE) ms)"
  define fl where "fl = pre @ chunk_bytes 3 m @ tl"
  define rs' where "rs' = rs\<lparr>fp := Some (RFile fl (length pre + (7 + length m))),
                              index := index rs + 7 + length m\<rparr>"
  have f: "fp rs = Some (RFile (pre @ chunk_bytes 3 m @ tl) (length pre))"
    using Cons.prems(2) by (simp add: tl_def LEVELDBLOG_MIDDLE_def)
  have lm: "length m < 65536" using Cons.prems(3) by simp
  have sr: "scan_record rs = Inr (Some (3, m), rs')"
    using scan_record_chunk[OF Cons.prems(1) f _ lm] by (simp add: rs'_def fl_def)
  have o': "opened_for_scan rs'" using Cons.prems(1) by (simp add: rs'_def)
  have f': "fp rs' = Some (RFile ((pre @ chunk_bytes 3 m) @ concat (map (chunk_bytes LEVELDBLOG_MIDDLE) ms))
                              (length (pre @ chunk_bytes 3 m)))"
    by (simp add: rs'_def fl_def tl_def)
  have all: "\<forall>m \<in> set ms. length m < 65536" using Cons.prems(3) by simp
  note ih = Cons.IH[OF o' f' all, of "acc @ m"]
  have "scan_loop rs acc = scan_loop rs' (acc @ m)"
    by (subst scan_loop.simps) (simp add: sr log_consts)
  with ih show ?case
    by (simp add: rs'_def fl_def tl_def LEVELDBLOG_MIDDLE_def add.assoc)
qed

text \<open>
  Claim C10. When the file ends after a FIRST chunk and any number of MIDDLE chunks,
  with no LAST chunk, \<^verbatim>\<open>scan_data\<close> returns \<^verbatim>\<open>None\<close> with the file at its end: the
  data gathered so far is dropped and no error is raised.
\<close>

theorem truncated_split_record_is_end_of_stream:
  assumes "opened_for_scan rs"
    and "fp rs = Some (RFile fl (length pre))"
    and "fl = pre @ pad_bytes (index rs) @ chunk_bytes LEVELDBLOG_FIRST d
                @ concat (map (chunk_bytes LEVELDBLOG_MIDDLE) ms)"
    and "length d < 65536"
    and "\<forall>m \<in> set ms. length m < 65536"
  shows "scan_data rs =
         Inr (None, rs\<lparr>fp := Some (RFile fl (length fl)),
                        index := index rs + (length fl - length pre)\<rparr>)"
proof -
  define pad where "pad = pad_bytes (index rs)"
  define tl where "tl = concat (map (chunk_bytes LEVELDBLOG_MIDDLE) ms)"
  have fl: "fl = pre @ pad @ chunk_bytes 2 d @ tl"
    using assms(3) by (simp add: pad_def tl_def LEVELDBLOG_FIRST_def)
  define rs1 where "rs1 = rs\<lparr>fp := Some (RFile fl (length pre + length pad)),
                              index := index rs + length pad\<rparr>"
  have sp: "scan_pad rs = Inr rs1"
  proof -
    have "fp rs = Some (RFile (pre @ pad_bytes (index rs) @ (chunk_bytes 2 d @ tl)) (length pre))"
      using assms(2) by (simp add: fl pad_def)
    from scan_pad_ok[OF this] show ?thesis
      by (simp add: rs1_def fl pad_def)
  qed
  have o1: "opened_for_scan rs1" using assms(1) by (simp add: rs1_def)
  have f1: "fp rs1 = Some (RFile ((pre @ pad) @ chunk_bytes 2 d @ tl) (length (pre @ pad)))"
    by (simp add: rs1_def fl)
  define rs2 where "rs2 = rs1\<lparr>fp := Some (RFile fl (length (pre @ pad) + (7 + length d))),
                                index := index rs1 + 7 + length d\<rparr>"
  have sr: "scan_record rs1 = Inr (Some (2, d), rs2)"
    using scan_record_chunk[OF o1 f1 _ assms(4)] by (simp add: rs2_def fl)
  have o2: "opened_for_scan rs2" using o1 by (simp add: rs2_def)
  have f2: "fp rs2 = Some (RFile ((pre @ pad @ chunk_bytes 2 d)
                                  @ concat (map (chunk_bytes LEVELDBLOG_MIDDLE) ms))
                             (length (pre @ pad @ chunk_bytes 2 d)))"
    by (simp add: rs2_def fl tl_def)
  note sl = scan_loop_truncated[OF o2 f2 assms(5), of d]
  show ?thesis
    unfolding scan_data_def sp sum.case sr prod.case option.case
    by (simp add: log_consts sl) (simp add: rs2_def rs1_def fl tl_def add.assoc LEVELDBLOG_MIDDLE_def)
qed

theorem truncated_split_record_is_end_of_stream_witness:
  "scan_data \<lparr>opened_for_scan = True,
              fp = Some (RFile (header_bytes @ chunk_bytes LEVELDBLOG_FIRST [1, 2]
                                 @ chunk_bytes LEVELDBLOG_MIDDLE [3]) 7),
              index = 7, fname = ''run.wandb''\<rparr>
   = Inr (None, \<lparr>opened_for_scan = True,
              fp = Some (RFile (header_bytes @ chunk_bytes LEVELDBLOG_FIRST [1, 2]
                                 @ chunk_bytes LEVELDBLOG_MIDDLE [3]) 24),
              index = 24, fname = ''run.wandb''\<rparr>)"
proof -
  have pb: "pad_bytes 7 = []" by (simp add: pad_bytes_def log_consts)
  show ?thesis
    using truncated_split_record_is_end_of_stream[of
      "\<lparr>opened_for_scan = True,
              fp = Some (RFile (header_bytes @ chunk_bytes LEVELDBLOG_FIRST [1, 2]
                                 @ chunk_bytes LEVELDBLOG_MIDDLE [3]) 7),
              index = 7, fname = ''run.wandb''\<rparr>"
      "header_bytes @ chunk_bytes LEVELDBLOG_FIRST [1, 2] @ chunk_bytes LEVELDBLOG_MIDDLE [3]"
      header_bytes "[1, 2]" "[[3]]"]
    by (simp add: pb)
qed

subsection \<open>Append mode and write mode\<close>

lemma append_session_truncates:
  "append_session fs name ps = Inr (fs(name \<mapsto> log_bytes 0 ps))"
proof -
  define ds1 where "ds1 = init_datastore\<lparr>fname := name, fp := Some (WFile [])\<rparr>"
  have oa: "open_for_append fs init_datastore name = Inr (fs(name \<mapsto> []), ds1)"
    by (simp add: open_for_append_def ds1_def)
  have wa: "write_all ds1 ps
            = Inr (ds1\<lparr>fp := Some (WFile ([] @ log_bytes (index ds1) ps)),
                       index := index ds1 + length (log_bytes (index ds1) ps)\<rparr>)"
    by (rule write_all_ok) (simp add: ds1_def)
  show ?thesis
    by (simp add: append_session_def oa wa close_def) (simp add: ds1_def init_datastore_def)
qed

lemma open_for_write_existing:
  assumes "name \<in> dom fs"
  shows "open_for_write PY3 fs ds name = Inl (if PY3 then FileExistsError else IOError_file_exists)"
  using assms by (simp add: open_for_write_def Let_def)

lemma chunk_is_no_header:
  assumes "length s < 65536" "length s \<noteq> 48865"
  shows "read_header (ds\<lparr>fp := Some (RFile (chunk_bytes t s @ rest) 0)\<rparr>) = Inl InvalidHeader"
proof -
  define c where "c = le_bytes 4 (unat (crc32 s (crc_table ! t)))"
  have lc: "length c = 4" by (simp add: c_def)
  define hd7 where "hd7 = c @ le_bytes 2 (length s) @ le_bytes 1 t"
  have l7: "length hd7 = 7" by (simp add: hd7_def lc)
  have cb: "chunk_bytes t s @ rest = hd7 @ (s @ rest)"
    by (simp add: chunk_bytes_def hd7_def c_def)
  have rd: "fp_read (Some (RFile (chunk_bytes t s @ rest) 0)) 7
            = Inr (hd7, Some (RFile (chunk_bytes t s @ rest) 7))"
    unfolding cb using l7 by simp
  have mg: "le_value (take 2 (drop 4 hd7)) = length s"
    using assms(1) by (simp add: hd7_def lc le_value_le_bytes del: le_bytes.simps)
  have u: "unpack_4sHB hd7 = Inr (take 4 hd7, length s, le_value (drop 6 hd7))"
    using l7 mg by (simp add: unpack_4sHB_def)
  show ?thesis
    using assms(2)
    by (simp add: read_header_def Let_def rd u LEVELDBLOG_HEADER_MAGIC_def del: fp_read.simps)
qed

text \<open>
  Claim C9. \<^verbatim>\<open>open_for_append\<close> opens the file with mode \<^verbatim>\<open>"wb"\<close>, which cuts it to
  length 0, and writes no header. A file holding one record, reopened for append and
  given a second record, holds only the second record, and scanning it fails on the
  header: the first record is lost.
\<close>

theorem append_mode_loses_prior_records:
  "write_session True Map.empty ''run.wandb'' [[0x61]]
     = Inr [''run.wandb'' \<mapsto> header_bytes @ chunk_bytes LEVELDBLOG_FULL [0x61]]
   \<and> append_session [''run.wandb'' \<mapsto> header_bytes @ chunk_bytes LEVELDBLOG_FULL [0x61]]
         ''run.wandb'' [[0x62]]
     = Inr [''run.wandb'' \<mapsto> chunk_bytes LEVELDBLOG_FULL [0x62]]
   \<and> scan_session [''run.wandb'' \<mapsto> chunk_bytes LEVELDBLOG_FULL [0x62]] ''run.wandb''
     = Inl InvalidHeader"
proof -
  have r1: "record_bytes 7 [0x61] = chunk_bytes 1 [0x61]"
    by (rule record_bytes_fits) simp_all
  have r2: "record_bytes 0 [0x62] = chunk_bytes 1 [0x62]"
    by (rule record_bytes_fits) simp_all
  have w: "write_session True Map.empty ''run.wandb'' [[0x61]]
           = Inr [''run.wandb'' \<mapsto> header_bytes @ chunk_bytes LEVELDBLOG_FULL [0x61]]"
    by (subst write_session_ok) (simp_all add: r1 LEVELDBLOG_FULL_def)
  have a: "append_session [''run.wandb'' \<mapsto> header_bytes @ chunk_bytes LEVELDBLOG_FULL [0x61]]
             ''run.wandb'' [[0x62]]
           = Inr [''run.wandb'' \<mapsto> chunk_bytes LEVELDBLOG_FULL [0x62]]"
    by (simp add: append_session_truncates r2 LEVELDBLOG_FULL_def)
  have "read_header (init_datastore\<lparr>fname := ''run.wandb'', index := 0, opened_for_scan := True,
                       fp := Some (RFile (chunk_bytes 1 [0x62] @ []) 0)\<rparr>) = Inl InvalidHeader"
    by (rule chunk_is_no_header) simp_all
  then have s: "scan_session [''run.wandb'' \<mapsto> chunk_bytes LEVELDBLOG_FULL [0x62]] ''run.wandb''
            = Inl InvalidHeader"
    by (simp add: scan_session_def open_for_scan_def LEVELDBLOG_FULL_def init_datastore_def)
  from w a s show ?thesis by simp
qed

subsection \<open>The checksum\<close>

lemma word_xor_cancel_right:
  fixes a b c :: "'a::len word"
  shows "(a XOR c = b XOR c) = (a = b)"
proof
  assume "a XOR c = b XOR c"
  then have "(a XOR c) XOR c = (b XOR c) XOR c" by simp
  then show "a = b" by (simp add: xor.assoc)
qed simp

lemma word_xor_cancel_left:
  fixes a b c :: "'a::len word"
  shows "(c XOR a = c XOR b) = (a = b)"
  using word_xor_cancel_right[of a c b] by (simp add: xor.commute)

lemma not_bit_32: "\<not> bit (c :: 32 word) 32"
  by (auto dest: bit_imp_le_length)

lemma crc_step_top: "bit (crc_step c) 31 = bit c 0"
  by (simp add: crc_step_def bit_simps not_bit_32)

lemma word_eq_from_drop:
  fixes a b :: "32 word"
  assumes "bit a 0 = bit b 0" "drop_bit 1 a = drop_bit 1 b"
  shows "a = b"
proof (rule bit_eqI)
  fix n
  show "bit a n = bit b n"
  proof (cases n)
    case 0
    with assms(1) show ?thesis by simp
  next
    case (Suc m)
    have "bit (drop_bit 1 a) m = bit (drop_bit 1 b) m" by (simp only: assms(2))
    then show ?thesis by (simp add: bit_drop_bit_eq Suc)
  qed
qed

lemma crc_step_inj: "crc_step a = crc_step b \<Longrightarrow> a = b"
proof -
  assume eq: "crc_step a = crc_step b"
  then have b0: "bit a 0 = bit b 0"
    using crc_step_top[of a] crc_step_top[of b] by simp
  have "drop_bit 1 a = drop_bit 1 b"
  proof (cases "bit a 0")
    case True
    with b0 eq have "drop_bit 1 a XOR 0xEDB88320 = drop_bit 1 b XOR (0xEDB88320 :: 32 word)"
      by (simp add: crc_step_def)
    then show ?thesis by (simp only: word_xor_cancel_right)
  next
    case False
    with b0 eq show ?thesis by (simp add: crc_step_def)
  qed
  with b0 show ?thesis by (rule word_eq_from_drop)
qed

lemma crc_step_pow_inj: "(crc_step ^^ n) a = (crc_step ^^ n) b \<Longrightarrow> a = b"
  by (induction n arbitrary: a b) (auto dest: crc_step_inj)

lemma ucast_byte_inj:
  assumes "(ucast (a :: byte) :: 32 word) = ucast b"
  shows "a = b"
proof (rule bit_eqI)
  fix n
  assume "possible_bit TYPE(byte) n"
  then have n: "n < 8" by (simp add: possible_bit_word)
  have "bit (ucast a :: 32 word) n = bit (ucast b :: 32 word) n" by (simp only: assms)
  with n show "bit a n = bit b n" by (simp add: bit_word_ucast_iff)
qed

lemma crc_byte_inj_state: "crc_byte a x = crc_byte b x \<Longrightarrow> a = b"
  by (auto simp: crc_byte_def word_xor_cancel_right dest!: crc_step_pow_inj)

lemma crc_byte_inj_byte: "crc_byte c x = crc_byte c y \<Longrightarrow> x = y"
  by (auto simp: crc_byte_def word_xor_cancel_left dest!: crc_step_pow_inj ucast_byte_inj)

lemma crc_fold_inj_state: "foldl crc_byte a s = foldl crc_byte b s \<Longrightarrow> a = b"
  by (induction s arbitrary: a b) (auto dest: crc_byte_inj_state)

lemma crc32_one_byte_changed:
  assumes "x \<noteq> y"
  shows "crc32 (pre @ x # suf) seed \<noteq> crc32 (pre @ y # suf) seed"
proof
  assume "crc32 (pre @ x # suf) seed = crc32 (pre @ y # suf) seed"
  then have "foldl crc_byte (crc_byte (foldl crc_byte (NOT seed) pre) x) suf
             = foldl crc_byte (crc_byte (foldl crc_byte (NOT seed) pre) y) suf"
    by (simp add: crc32_def)
  then have "crc_byte (foldl crc_byte (NOT seed) pre) x = crc_byte (foldl crc_byte (NOT seed) pre) y"
    by (rule crc_fold_inj_state)
  then have "x = y" by (rule crc_byte_inj_byte)
  with assms show False by simp
qed

lemma flip_changes_byte:
  fixes b :: byte
  assumes "k < 8"
  shows "b XOR push_bit k 1 \<noteq> b"
proof
  assume "b XOR push_bit k 1 = b"
  then have "b XOR push_bit k 1 = b XOR 0" by simp
  then have z: "(push_bit k 1 :: byte) = 0" by (simp only: word_xor_cancel_left)
  have "bit (push_bit k 1 :: byte) k" using assms by (simp add: bit_simps)
  then have "bit (0 :: byte) k" unfolding z .
  then show False by simp
qed

subsection \<open>A damaged payload\<close>

declare middles_chunks.simps [simp del]

lemma chunks_bytes_simps [simp]:
  "chunks_bytes [] = []"
  "chunks_bytes ((t, d) # cs) = chunk_bytes t d @ chunks_bytes cs"
  "chunks_bytes (xs @ ys) = chunks_bytes xs @ chunks_bytes ys"
  by (simp_all add: chunks_bytes_def)

lemma middles_bytes_chunks: "middles_bytes r = chunks_bytes (middles_chunks r)"
proof (induction r rule: middles_bytes.induct)
  case (1 r)
  show ?case
  proof (cases "length r > LEVELDBLOG_DATA_LEN")
    case True
    with 1 show ?thesis
      by (subst middles_bytes.simps, subst middles_chunks.simps) simp
  next
    case False
    then show ?thesis
      by (subst middles_bytes.simps, subst middles_chunks.simps) simp
  qed
qed

lemma record_bytes_chunks:
  "record_bytes i s = pad_bytes i @ chunks_bytes (record_chunks i s)"
  by (simp add: record_bytes_def record_chunks_def body_bytes_def body_chunks_def
      middles_bytes_chunks)

text \<open>The chunks of a record: one FULL chunk, or FIRST, MIDDLE chunks and LAST.\<close>

lemma middles_chunks_shape:
  "\<exists>ms l. middles_chunks r = map (Pair LEVELDBLOG_MIDDLE) ms @ [(LEVELDBLOG_LAST, l)]
          \<and> (\<forall>m \<in> set ms. length m < 65536) \<and> length l < 65536"
proof (induction r rule: middles_chunks.induct)
  case (1 r)
  show ?case
  proof (cases "length r > LEVELDBLOG_DATA_LEN")
    case True
    from 1[OF True] obtain ms l where
      ih: "middles_chunks (drop LEVELDBLOG_DATA_LEN r)
           = map (Pair LEVELDBLOG_MIDDLE) ms @ [(LEVELDBLOG_LAST, l)]"
      "\<forall>m \<in> set ms. length m < 65536" "length l < 65536"
      by blast
    have "middles_chunks r
          = map (Pair LEVELDBLOG_MIDDLE) (take LEVELDBLOG_DATA_LEN r # ms) @ [(LEVELDBLOG_LAST, l)]"
      using True ih(1) by (subst middles_chunks.simps) simp
    moreover have "\<forall>m \<in> set (take LEVELDBLOG_DATA_LEN r # ms). length m < 65536"
      using ih(2) by (simp add: log_consts)
    ultimately show ?thesis using ih(3) by blast
  next
    case False
    then have "middles_chunks r = map (Pair LEVELDBLOG_MIDDLE) [] @ [(LEVELDBLOG_LAST, r)]"
      by (subst middles_chunks.simps) simp
    moreover have "length r < 65536" using False by (simp add: log_consts)
    ultimately show ?thesis by fastforce
  qed
qed

lemma body_chunks_shape:
  assumes "sl \<le> 32768"
  shows "(body_chunks sl s = [(LEVELDBLOG_FULL, s)] \<and> length s < 65536)
       \<or> (\<exists>h ms l. body_chunks sl s
                     = (LEVELDBLOG_FIRST, h) # map (Pair LEVELDBLOG_MIDDLE) ms @ [(LEVELDBLOG_LAST, l)]
              \<and> length h < 65536 \<and> (\<forall>m \<in> set ms. length m < 65536) \<and> length l < 65536)"
proof (cases "length s + LEVELDBLOG_HEADER_LEN \<le> sl")
  case True
  then show ?thesis using assms by (simp add: body_chunks_def log_consts)
next
  case False
  obtain ms l where
    "middles_chunks (drop (sl - LEVELDBLOG_HEADER_LEN) s)
       = map (Pair LEVELDBLOG_MIDDLE) ms @ [(LEVELDBLOG_LAST, l)]"
    "\<forall>m \<in> set ms. length m < 65536" "length l < 65536"
    using middles_chunks_shape by blast
  moreover have "length (take (sl - LEVELDBLOG_HEADER_LEN) s) < 65536"
    using assms by (simp add: log_consts)
  ultimately show ?thesis
    using False by (auto simp: body_chunks_def)
qed

lemma record_chunks_shape:
  "(record_chunks i s = [(LEVELDBLOG_FULL, s)] \<and> length s < 65536)
   \<or> (\<exists>h ms l. record_chunks i s
                 = (LEVELDBLOG_FIRST, h) # map (Pair LEVELDBLOG_MIDDLE) ms @ [(LEVELDBLOG_LAST, l)]
          \<and> length h < 65536 \<and> (\<forall>m \<in> set ms. length m < 65536) \<and> length l < 65536)"
  unfolding record_chunks_def by (rule body_chunks_shape) (simp add: log_consts)

lemma flip_bit_at_append:
  assumes "m < length X"
  shows "flip_bit_at (A @ X @ B) (length A + m) k = A @ flip_bit_at X m k @ B"
  using assms by (simp add: flip_bit_at_def list_update_append nth_append)

lemma length_flip_bit_at [simp]: "length (flip_bit_at bs p k) = length bs"
  by (simp add: flip_bit_at_def)

lemma flip_chunk_payload:
  assumes "n < length d"
  shows "flip_bit_at (chunk_bytes t d) (7 + n) k
         = le_bytes 4 (unat (crc32 d (crc_table ! t))) @ le_bytes 2 (length d) @ le_bytes 1 t
           @ flip_bit_at d n k"
proof -
  let ?h = "le_bytes 4 (unat (crc32 d (crc_table ! t))) @ le_bytes 2 (length d) @ le_bytes 1 t"
  have lh: "length ?h = 7" by simp
  have "flip_bit_at (?h @ d @ []) (length ?h + n) k = ?h @ flip_bit_at d n k @ []"
    using assms by (rule flip_bit_at_append)
  then show ?thesis
    unfolding lh by (simp add: chunk_bytes_def del: le_bytes.simps)
qed

lemma crc32_flip:
  assumes "n < length d" "k < 8"
  shows "crc32 (flip_bit_at d n k) seed \<noteq> crc32 d seed"
proof -
  have d: "d = take n d @ d ! n # drop (Suc n) d"
    using assms(1) by (simp add: id_take_nth_drop)
  have f: "flip_bit_at d n k = take n d @ (d ! n XOR push_bit k 1) # drop (Suc n) d"
    using assms(1) by (simp add: flip_bit_at_def upd_conv_take_nth_drop)
  have "crc32 (take n d @ (d ! n XOR push_bit k 1) # drop (Suc n) d) seed
        \<noteq> crc32 (take n d @ d ! n # drop (Suc n) d) seed"
    by (rule crc32_one_byte_changed) (rule flip_changes_byte[OF assms(2)])
  then show ?thesis using d f by simp
qed

lemma scan_record_bad:
  assumes "opened_for_scan rs"
    and "fp rs = Some (RFile (pre @ flip_bit_at (chunk_bytes t d) (7 + n) k @ suf) (length pre))"
    and "t \<le> 4" "length d < 65536" "n < length d" "k < 8"
  shows "scan_record rs = Inl (AssertionError Assert_checksum)"
proof -
  let ?h = "le_bytes 4 (unat (crc32 d (crc_table ! t))) @ le_bytes 2 (length d) @ le_bytes 1 t"
  define d' where "d' = flip_bit_at d n k"
  define fl where "fl = pre @ ?h @ d' @ suf"
  have fp: "fp rs = Some (RFile fl (length pre))"
    using assms(2) flip_chunk_payload[OF assms(5), of t k]
    by (simp add: fl_def d'_def del: le_bytes.simps)
  have lh: "length ?h = 7" by simp
  have ne: "?h \<noteq> []" using lh by (metis length_0_conv zero_neq_numeral)
  have r1: "fp_read (fp rs) 7 = Inr (?h, Some (RFile fl (length pre + 7)))"
    using fp lh by (simp add: fl_def del: le_bytes.simps)
  have r2: "fp_read (Some (RFile fl (length pre + 7))) (length d)
            = Inr (d', Some (RFile fl (length pre + 7 + length d)))"
    using lh by (simp add: fl_def d'_def Let_def del: le_bytes.simps)
  have u: "unpack_IHB ?h = Inr (crc32 d (crc_table ! t), length d, t)"
    using assms(3,4) by (intro unpack_pack_IHB) auto
  have c: "crc32 d (crc_table ! t) \<noteq> crc32 d' (crc_table ! t)"
    using crc32_flip[OF assms(5,6), of "crc_table ! t"] by (simp add: d'_def)
  show ?thesis
    unfolding scan_record_def
    using assms(1,3) r1 r2 u lh ne c
    by (simp add: log_consts crc_seed_ok del: le_bytes.simps fp_read.simps)
qed

lemma scan_loop_bad:
  assumes "opened_for_scan rs"
    and "fp rs = Some (RFile (pre @ chunks_bytes (map (Pair LEVELDBLOG_MIDDLE) ms)
                               @ flip_bit_at (chunk_bytes t d) (7 + n) k @ suf) (length pre))"
    and "\<forall>m \<in> set ms. length m < 65536"
    and "t \<le> 4" "length d < 65536" "n < length d" "k < 8"
  shows "scan_loop rs acc = Inl (AssertionError Assert_checksum)"
  using assms(1,2,3)
proof (induction ms arbitrary: rs pre acc)
  case Nil
  then have "scan_record rs = Inl (AssertionError Assert_checksum)"
    using scan_record_bad[OF Nil(1) _ assms(4-7)] by simp
  then show ?case by (subst scan_loop.simps) simp
next
  case (Cons m ms)
  define tl where "tl = chunks_bytes (map (Pair LEVELDBLOG_MIDDLE) ms)
                        @ flip_bit_at (chunk_bytes t d) (7 + n) k @ suf"
  define fl where "fl = pre @ chunk_bytes 3 m @ tl"
  define rs' where "rs' = rs\<lparr>fp := Some (RFile fl (length pre + (7 + length m))),
                              index := index rs + 7 + length m\<rparr>"
  have f: "fp rs = Some (RFile (pre @ chunk_bytes 3 m @ tl) (length pre))"
    using Cons.prems(2) by (simp add: tl_def LEVELDBLOG_MIDDLE_def)
  have lm: "length m < 65536" using Cons.prems(3) by simp
  have sr: "scan_record rs = Inr (Some (3, m), rs')"
    using scan_record_chunk[OF Cons.prems(1) f _ lm] by (simp add: rs'_def fl_def)
  have o': "opened_for_scan rs'" using Cons.prems(1) by (simp add: rs'_def)
  have f': "fp rs' = Some (RFile ((pre @ chunk_bytes 3 m) @ chunks_bytes (map (Pair LEVELDBLOG_MIDDLE) ms)
                               @ flip_bit_at (chunk_bytes t d) (7 + n) k @ suf)
                              (length (pre @ chunk_bytes 3 m)))"
    by (simp add: rs'_def fl_def tl_def)
  have all: "\<forall>m \<in> set ms. length m < 65536" using Cons.prems(3) by simp
  note ih = Cons.IH[OF o' f' all, of "acc @ m"]
  have "scan_loop rs acc = scan_loop rs' (acc @ m)"
    by (subst scan_loop.simps) (simp add: sr log_consts)
  with ih show ?case by simp
qed

lemma scan_data_bad:
  assumes o: "opened_for_scan rs"
    and c: "c < length (record_chunks (index rs) s)"
    and td: "record_chunks (index rs) s ! c = (t, d)"
    and n: "n < length d" and k: "k < 8"
    and f: "fp rs = Some (RFile (pre @ pad_bytes (index rs)
                                 @ chunks_bytes (take c (record_chunks (index rs) s))
                                 @ flip_bit_at (chunk_bytes t d) (7 + n) k @ suf) (length pre))"
  shows "scan_data rs = Inl (AssertionError Assert_checksum)"
proof -
  define pad where "pad = pad_bytes (index rs)"
  define cs where "cs = record_chunks (index rs) s"
  define bad where "bad = flip_bit_at (chunk_bytes t d) (7 + n) k"
  define fl where "fl = pre @ pad @ chunks_bytes (take c cs) @ bad @ suf"
  define rs1 where "rs1 = rs\<lparr>fp := Some (RFile fl (length pre + length pad)),
                              index := index rs + length pad\<rparr>"
  have sp: "scan_pad rs = Inr rs1"
  proof -
    have "fp rs = Some (RFile (pre @ pad_bytes (index rs) @ (chunks_bytes (take c cs) @ bad @ suf))
                          (length pre))"
      using f by (simp add: pad_def cs_def bad_def)
    from scan_pad_ok[OF this] show ?thesis
      by (simp add: rs1_def fl_def pad_def)
  qed
  have o1: "opened_for_scan rs1" using o by (simp add: rs1_def)
  have f1: "fp rs1 = Some (RFile ((pre @ pad) @ chunks_bytes (take c cs) @ bad @ suf)
                             (length (pre @ pad)))"
    by (simp add: rs1_def fl_def)
  consider (full) "cs = [(LEVELDBLOG_FULL, s)]" "length s < 65536"
    | (split) h ms l where
        "cs = (LEVELDBLOG_FIRST, h) # map (Pair LEVELDBLOG_MIDDLE) ms @ [(LEVELDBLOG_LAST, l)]"
        "length h < 65536" "\<forall>m \<in> set ms. length m < 65536" "length l < 65536"
    using record_chunks_shape[of "index rs" s] unfolding cs_def by blast
  then show ?thesis
  proof cases
    case full
    with c td have "c = 0" "t = 1" "d = s"
      by (simp_all add: cs_def[symmetric] log_consts)
    with f1 have "fp rs1 = Some (RFile ((pre @ pad) @ flip_bit_at (chunk_bytes 1 s) (7 + n) k @ suf)
                             (length (pre @ pad)))"
      by (simp add: bad_def)
    from scan_record_bad[OF o1 this _ full(2) n[unfolded \<open>d = s\<close>] k]
    show ?thesis by (simp add: scan_data_def sp)
  next
    case split
    show ?thesis
    proof (cases c)
      case 0
      with td split(1) have "t = 2" "d = h"
        by (simp_all add: cs_def[symmetric] log_consts)
      with f1 0 have "fp rs1 = Some (RFile ((pre @ pad) @ flip_bit_at (chunk_bytes 2 h) (7 + n) k @ suf)
                             (length (pre @ pad)))"
        by (simp add: bad_def)
      from scan_record_bad[OF o1 this _ split(2) n[unfolded \<open>d = h\<close>] k]
      show ?thesis by (simp add: scan_data_def sp)
    next
      case (Suc c')
      define rest where "rest = map (Pair LEVELDBLOG_MIDDLE) ms @ [(LEVELDBLOG_LAST, l)]"
      have cs': "cs = (LEVELDBLOG_FIRST, h) # rest" by (simp add: split(1) rest_def)
      have c': "c' \<le> length ms"
        using c Suc by (simp add: cs_def[symmetric] split(1))
      have tk: "take c cs = (2, h) # map (Pair LEVELDBLOG_MIDDLE) (take c' ms)"
        using c' by (simp add: Suc split(1) take_map log_consts)
      have td': "(t, d) = rest ! c'"
        using td by (simp add: cs_def[symmetric] cs' Suc)
      have tdp: "t \<le> 4 \<and> length d < 65536"
      proof (cases "c' < length ms")
        case True
        then have "rest ! c' = (LEVELDBLOG_MIDDLE, ms ! c')"
          by (simp add: rest_def nth_append)
        with td' split(3) True show ?thesis by (simp add: log_consts)
      next
        case False
        with c' have "c' = length ms" by simp
        then have "rest ! c' = (LEVELDBLOG_LAST, l)"
          by (simp add: rest_def nth_append)
        with td' split(4) show ?thesis by (simp add: log_consts)
      qed
      define tlb where "tlb = chunks_bytes (map (Pair LEVELDBLOG_MIDDLE) (take c' ms)) @ bad @ suf"
      have f1': "fp rs1 = Some (RFile ((pre @ pad) @ chunk_bytes 2 h @ tlb) (length (pre @ pad)))"
        using f1 by (simp add: tk tlb_def)
      define rs2 where "rs2 = rs1\<lparr>fp := Some (RFile ((pre @ pad) @ chunk_bytes 2 h @ tlb)
                                                (length (pre @ pad) + (7 + length h))),
                                   index := index rs1 + 7 + length h\<rparr>"
      have sr: "scan_record rs1 = Inr (Some (2, h), rs2)"
        using scan_record_chunk[OF o1 f1' _ split(2)] by (simp add: rs2_def)
      have o2: "opened_for_scan rs2" using o1 by (simp add: rs2_def)
      have f2: "fp rs2 = Some (RFile ((pre @ pad @ chunk_bytes 2 h)
                                 @ chunks_bytes (map (Pair LEVELDBLOG_MIDDLE) (take c' ms))
                                 @ flip_bit_at (chunk_bytes t d) (7 + n) k @ suf)
                                (length (pre @ pad @ chunk_bytes 2 h)))"
        by (simp add: rs2_def tlb_def bad_def)
      have all: "\<forall>m \<in> set (take c' ms). length m < 65536"
        using split(3) by (meson in_set_takeD)
      have "scan_loop rs2 h = Inl (AssertionError Assert_checksum)"
        using scan_loop_bad[OF o2 f2 all _ _ n k] tdp by simp
      then show ?thesis
        by (simp add: scan_data_def sp sr log_consts)
    qed
  qed
qed

lemma scan_all_prefix:
  assumes "opened_for_scan rs"
    and "fp rs = Some (RFile (pre @ log_bytes (index rs) qs @ suf) (length pre))"
  shows "scan_all rs =
         (case scan_all (rs\<lparr>fp := Some (RFile (pre @ log_bytes (index rs) qs @ suf)
                                        (length pre + length (log_bytes (index rs) qs))),
                             index := index rs + length (log_bytes (index rs) qs)\<rparr>) of
            (ps', e) \<Rightarrow> (qs @ ps', e))"
  using assms
proof (induction qs arbitrary: rs pre)
  case Nil
  then have "rs\<lparr>fp := Some (RFile (pre @ suf) (length pre)), index := index rs\<rparr> = rs" by simp
  then show ?case by (simp split: prod.splits)
next
  case (Cons s ss)
  define rb where "rb = record_bytes (index rs) s"
  define tl where "tl = log_bytes (index rs + length rb) ss @ suf"
  define rs' where "rs' = rs\<lparr>fp := Some (RFile (pre @ rb @ tl) (length pre + length rb)),
                              index := index rs + length rb\<rparr>"
  have f: "fp rs = Some (RFile (pre @ record_bytes (index rs) s @ tl) (length pre))"
    using Cons.prems(2) by (simp add: rb_def tl_def)
  have sd: "scan_data rs = Inr (Some s, rs')"
    using scan_data_record[OF Cons.prems(1) f] by (simp add: rs'_def rb_def)
  have o': "opened_for_scan rs'" using Cons.prems(1) by (simp add: rs'_def)
  have f': "fp rs' = Some (RFile ((pre @ rb) @ log_bytes (index rs') ss @ suf) (length (pre @ rb)))"
    by (simp add: rs'_def tl_def)
  note ih = Cons.IH[OF o' f']
  have e: "rs'\<lparr>fp := Some (RFile ((pre @ rb) @ log_bytes (index rs') ss @ suf)
                             (length (pre @ rb) + length (log_bytes (index rs') ss))),
               index := index rs' + length (log_bytes (index rs') ss)\<rparr>
           = rs\<lparr>fp := Some (RFile (pre @ log_bytes (index rs) (s # ss) @ suf)
                               (length pre + length (log_bytes (index rs) (s # ss)))),
                  index := index rs + length (log_bytes (index rs) (s # ss))\<rparr>"
    by (simp add: rs'_def rb_def add.assoc)
  have "scan_all rs = (case scan_all rs' of (ps, t) \<Rightarrow> (s # ps, t))"
    by (subst scan_all.simps) (simp add: sd)
  then show ?case
    unfolding ih e by (simp split: prod.splits del: log_bytes.simps)
qed

lemma scan_all_raise:
  "scan_data rs = Inl e \<Longrightarrow> scan_all rs = ([], Raised e)"
  by (subst scan_all.simps) simp

lemma log_bytes_append:
  "log_bytes i (xs @ ys) = log_bytes i xs @ log_bytes (i + length (log_bytes i xs)) ys"
  by (induction xs arbitrary: i) (simp_all add: add.assoc)

lemma log_bytes_split:
  assumes "j < length ps"
  shows "log_bytes i ps
         = log_bytes i (take j ps)
           @ record_bytes (i + length (log_bytes i (take j ps))) (ps ! j)
           @ log_bytes (i + length (log_bytes i (take j ps))
                          + length (record_bytes (i + length (log_bytes i (take j ps))) (ps ! j)))
               (drop (Suc j) ps)"
proof -
  have "ps = take j ps @ (ps ! j # drop (Suc j) ps)"
    using assms by (simp add: id_take_nth_drop)
  then have "log_bytes i ps = log_bytes i (take j ps @ (ps ! j # drop (Suc j) ps))" by simp
  then show ?thesis by (simp only: log_bytes_append log_bytes.simps)
qed

text \<open>
  Claim C4. Take the file that appending the payloads \<open>ps\<close> to a new file writes, and
  invert one bit of one payload byte of one chunk: bit \<open>k\<close> of byte \<open>n\<close> of the data of
  chunk \<open>c\<close> of record \<open>j\<close>, which is the byte at position \<open>p\<close> of the file. Scanning
  the damaged file returns the \<open>j\<close> payloads before the damaged record and then fails
  the checksum assertion; neither the damaged payload nor any later one is returned.
\<close>

theorem payload_bit_flip_is_detected:
  assumes fresh: "name \<notin> dom fs0"
    and written: "write_session PY3 fs0 name ps = Inr fs1" "fs1 name = Some bytes"
    and j: "j < length ps"
    and i: "i = 7 + length (log_bytes 7 (take j ps))"
    and c: "c < length (record_chunks i (ps ! j))"
    and td: "record_chunks i (ps ! j) ! c = (t, d)"
    and n: "n < length d" and k: "k < 8"
    and p: "p = i + length (pad_bytes i)
                + length (chunks_bytes (take c (record_chunks i (ps ! j)))) + 7 + n"
    and flipped: "fs2 = fs1(name \<mapsto> flip_bit_at bytes p k)"
  shows "scan_session fs2 name = Inr (take j ps, Raised (AssertionError Assert_checksum))"
proof -
  define L1 where "L1 = log_bytes 7 (take j ps)"
  define cs where "cs = record_chunks i (ps ! j)"
  define pad where "pad = pad_bytes i"
  define L3 where "L3 = log_bytes (i + length (record_bytes i (ps ! j))) (drop (Suc j) ps)"
  define bad where "bad = flip_bit_at (chunk_bytes t d) (7 + n) k"
  define B where "B = chunks_bytes (drop (Suc c) cs) @ L3"
  define A where "A = header_bytes @ L1 @ pad @ chunks_bytes (take c cs)"
  have bytes: "bytes = header_bytes @ log_bytes 7 ps"
    using written write_session_ok[OF fresh, of PY3 ps] by auto
  have split: "log_bytes 7 ps = L1 @ record_bytes i (ps ! j) @ L3"
    using log_bytes_split[OF j, of 7] by (simp add: L1_def L3_def i)
  have "cs = take c cs @ (t, d) # drop (Suc c) cs"
    using c td id_take_nth_drop[of c cs] by (simp add: cs_def[symmetric])
  then have "chunks_bytes cs
             = chunks_bytes (take c cs) @ chunk_bytes t d @ chunks_bytes (drop (Suc c) cs)"
    by (metis chunks_bytes_simps(2,3))
  then have rec: "record_bytes i (ps ! j)
                  = pad @ chunks_bytes (take c cs) @ chunk_bytes t d @ chunks_bytes (drop (Suc c) cs)"
    by (simp add: record_bytes_chunks pad_def cs_def)
  have bytesA: "bytes = A @ chunk_bytes t d @ B"
    by (simp add: bytes split rec A_def B_def)
  have pA: "p = length A + (7 + n)"
    by (simp add: p A_def L1_def pad_def cs_def i)
  have fl: "flip_bit_at bytes p k = A @ bad @ B"
    unfolding bytesA pA bad_def by (rule flip_bit_at_append) (simp add: n)
  define fl2 where "fl2 = header_bytes @ L1 @ pad @ chunks_bytes (take c cs) @ bad @ B"
  have fs2: "fs2 name = Some fl2"
    by (simp add: flipped fl fl2_def A_def)
  define ds1 where "ds1 = init_datastore\<lparr>fname := name, fp := Some (RFile fl2 7), index := 7,
                                          opened_for_scan := True\<rparr>"
  have rh: "read_header (init_datastore\<lparr>fname := name, fp := Some (RFile fl2 0), index := 0,
                                opened_for_scan := True\<rparr>) = Inr ds1"
    by (subst read_header_ok[where rest="L1 @ pad @ chunks_bytes (take c cs) @ bad @ B"])
       (simp_all add: ds1_def fl2_def)
  have os: "open_for_scan fs2 init_datastore name = Inr (fs2, ds1)"
    by (simp add: open_for_scan_def fs2 rh)
  have o1: "opened_for_scan ds1" by (simp add: ds1_def)
  have f1: "fp ds1 = Some (RFile (header_bytes @ log_bytes (index ds1) (take j ps)
                                   @ (pad @ chunks_bytes (take c cs) @ bad @ B))
                             (length header_bytes))"
    by (simp add: ds1_def fl2_def L1_def)
  define dsj where "dsj = ds1\<lparr>fp := Some (RFile fl2 (7 + length L1)), index := i\<rparr>"
  have pre: "scan_all ds1 = (case scan_all dsj of (ps', e) \<Rightarrow> (take j ps @ ps', e))"
    using scan_all_prefix[OF o1 f1] by (simp add: dsj_def ds1_def fl2_def L1_def i)
  have oj: "opened_for_scan dsj" by (simp add: dsj_def ds1_def)
  have fj: "fp dsj = Some (RFile ((header_bytes @ L1) @ pad_bytes (index dsj)
                                 @ chunks_bytes (take c (record_chunks (index dsj) (ps ! j)))
                                 @ flip_bit_at (chunk_bytes t d) (7 + n) k @ B)
                             (length (header_bytes @ L1)))"
    by (simp add: dsj_def fl2_def pad_def cs_def bad_def)
  have "scan_data dsj = Inl (AssertionError Assert_checksum)"
    by (rule scan_data_bad[OF oj _ _ n k fj]) (use c td in \<open>simp_all add: dsj_def\<close>)
  then have "scan_all dsj = ([], Raised (AssertionError Assert_checksum))"
    by (rule scan_all_raise)
  with pre have "scan_all ds1 = (take j ps, Raised (AssertionError Assert_checksum))"
    by simp
  then show ?thesis
    by (simp add: scan_session_def os)
qed

lemma record_chunks_fits:
  assumes "7 \<le> 32768 - i mod 32768" "length s + 7 \<le> 32768 - i mod 32768"
  shows "record_chunks i s = [(1, s)]"
  using assms by (simp add: record_chunks_def pad_bytes_def body_chunks_def log_consts)

theorem payload_bit_flip_is_detected_witness:
  "scan_session [''run.wandb'' \<mapsto> flip_bit_at (header_bytes @ chunk_bytes 1 [1, 2]) 15 3]
     ''run.wandb''
   = Inr ([], Raised (AssertionError Assert_checksum))"
proof -
  have rc: "record_chunks 7 [1, 2] = [(1, [1, 2])]"
    by (rule record_chunks_fits) simp_all
  have rb: "record_bytes 7 [1, 2] = chunk_bytes 1 [1, 2]"
    by (rule record_bytes_fits) simp_all
  have pb: "pad_bytes 7 = []" by (simp add: pad_bytes_def log_consts)
  have w: "write_session True Map.empty ''run.wandb'' [[1, 2]]
           = Inr [''run.wandb'' \<mapsto> header_bytes @ chunk_bytes 1 [1, 2]]"
    by (subst write_session_ok) (simp_all add: rb)
  show ?thesis
    using payload_bit_flip_is_detected[of "''run.wandb''" Map.empty True "[[1, 2]]"
        "[''run.wandb'' \<mapsto> header_bytes @ chunk_bytes 1 [1, 2]]"
        "header_bytes @ chunk_bytes 1 [1, 2]" 0 7 0 1 "[1, 2]" 1 3 15
        "[''run.wandb'' \<mapsto> flip_bit_at (header_bytes @ chunk_bytes 1 [1, 2]) 15 3]"]
    by (simp add: w rc pb)
qed

section \<open>Properties of the handler and the sender\<close>

subsection \<open>Routing\<close>

lemma handle_default:
  "default_policy (rec_type r) \<Longrightarrow> handle loads dumps h r = Inr (dispatch_record h r False)"
  by (cases "(rec_type r)" rule: default_policy.cases) (simp_all add: handle_def)

text \<open>
  Claim C6, as stated, fails: a record whose \<^verbatim>\<open>control.local\<close> flag is set and whose
  kind has the default policy is not put on the writer queue.
\<close>

theorem default_routing_counterexample:
  "default_policy (rec_type \<lparr>rec_type = RecFooter, control_req_resp = False,
                             control_local = True, uuid = ''''\<rparr>)
   \<and> writer_q (dispatch_record
        \<lparr>settings_offline = False, sender_q = [], writer_q = [], consolidated_summary = [],
         system_stats = False, tb_watcher = False, handler_calls = []\<rparr>
        \<lparr>rec_type = RecFooter, control_req_resp = False, control_local = True, uuid = ''''\<rparr>
        False) = []"
  by (simp add: dispatch_record_def)

text \<open>
  Claim C6, amended. A record of a kind with the default policy is put on the sender
  queue when the run is not offline, and on the writer queue when its
  \<^verbatim>\<open>control.local\<close> flag is not set; nothing else of the handler changes.
\<close>

theorem default_routing:
  assumes "default_policy (rec_type r)"
  shows "\<exists>h'. handle loads dumps h r = Inr h'
           \<and> sender_q h' = (if settings_offline h then sender_q h else sender_q h @ [r])
           \<and> writer_q h' = (if control_local r then writer_q h else writer_q h @ [r])
           \<and> consolidated_summary h' = consolidated_summary h"
  using handle_default[OF assms, of loads dumps h]
  by (simp add: dispatch_record_def Let_def)

theorem default_routing_witness:
  "default_policy (rec_type \<lparr>rec_type = RecStats, control_req_resp = False,
                             control_local = False, uuid = ''''\<rparr>)
   \<and> (\<exists>h'. handle (\<lambda>s. None) (\<lambda>v. '''')
          \<lparr>settings_offline = True, sender_q = [], writer_q = [], consolidated_summary = [],
           system_stats = False, tb_watcher = False, handler_calls = []\<rparr>
          \<lparr>rec_type = RecStats, control_req_resp = False, control_local = False, uuid = ''''\<rparr>
          = Inr h'
        \<and> sender_q h' = []
        \<and> writer_q h' = [\<lparr>rec_type = RecStats, control_req_resp = False,
                             control_local = False, uuid = ''''\<rparr>])"
  using default_routing[of "\<lparr>rec_type = RecStats, control_req_resp = False,
                             control_local = False, uuid = ''''\<rparr>"
        "\<lambda>s. None" "\<lambda>v. ''''"
        "\<lparr>settings_offline = True, sender_q = [], writer_q = [], consolidated_summary = [],
           system_stats = False, tb_watcher = False, handler_calls = []\<rparr>"]
  by (simp, blast)

subsection \<open>The defer state machine\<close>

lemmas defer_states = BEGIN_def FLUSH_STATS_def FLUSH_TB_def FLUSH_SUM_def FLUSH_DIR_def
  FLUSH_FP_def FLUSH_FS_def FLUSH_FINAL_def END_def

lemma defer_step:
  assumes "BEGIN \<le> state" "state < END"
  shows "\<exists>s'. send_request_defer s state = Inr s'
           \<and> s_published s' = s_published s
                @ (if state = FLUSH_FINAL then [Pub_final, Pub_footer] else [])
                @ [Pub_defer (state + 1)]
           \<and> s_result_q s' = s_result_q s
           \<and> s_exit_result s' = s_exit_result s
           \<and> s_exit_sync_uuid s' = s_exit_sync_uuid s"
proof -
  from assms have "state = 0 \<or> state = 1 \<or> state = 2 \<or> state = 3 \<or> state = 4
                   \<or> state = 5 \<or> state = 6 \<or> state = 7"
    by (auto simp: defer_states)
  then show ?thesis
    by (elim disjE) (simp_all add: send_request_defer_def defer_states)
qed

lemma defer_end:
  "\<exists>s'. send_request_defer s END = Inr s'
        \<and> s_published s' = s_published s
        \<and> s_exit_result s'
        \<and> s_exit_sync_uuid s' = s_exit_sync_uuid s
        \<and> s_result_q s' = s_result_q s
             @ (case s_exit_sync_uuid s of
                  None \<Rightarrow> []
                | Some u \<Rightarrow> if u = [] then [] else [Exit_result u])"
  by (simp add: send_request_defer_def defer_states Let_def split: option.splits)

lemma defer_sequence:
  assumes "\<forall>x \<in> set states. BEGIN \<le> x \<and> x \<le> END"
    and "s_exit_sync_uuid s = Some u" "u \<noteq> []"
  shows "\<exists>s'. send_defers s states = Inr s'
           \<and> s_exit_sync_uuid s' = Some u
           \<and> s_result_q s' = s_result_q s @ replicate (count_list states END) (Exit_result u)"
  using assms
proof (induction states arbitrary: s)
  case Nil
  then show ?case by simp
next
  case (Cons x xs)
  show ?case
  proof (cases "x = END")
    case True
    from defer_end[of s] Cons.prems(2,3) obtain s1 where
      s1: "send_request_defer s END = Inr s1" "s_exit_sync_uuid s1 = Some u"
          "s_result_q s1 = s_result_q s @ [Exit_result u]"
      by auto
    from Cons.IH[of s1] Cons.prems s1(2) obtain s' where
      "send_defers s1 xs = Inr s'" "s_exit_sync_uuid s' = Some u"
      "s_result_q s' = s_result_q s1 @ replicate (count_list xs END) (Exit_result u)"
      by auto
    with s1 True show ?thesis
      by (simp add: replicate_app_Cons_same)
  next
    case False
    with Cons.prems(1) have "BEGIN \<le> x" "x < END" by auto
    from defer_step[OF this, of s] Cons.prems(2) obtain s1 where
      s1: "send_request_defer s x = Inr s1" "s_exit_sync_uuid s1 = Some u"
          "s_result_q s1 = s_result_q s"
      by auto
    from Cons.IH[of s1] Cons.prems s1(2) obtain s' where
      "send_defers s1 xs = Inr s'" "s_exit_sync_uuid s' = Some u"
      "s_result_q s' = s_result_q s1 @ replicate (count_list xs END) (Exit_result u)"
      by auto
    with s1 False show ?thesis by simp
  qed
qed

lemma defer_step_full:
  assumes "BEGIN \<le> state" "state < END"
  shows "send_request_defer s state
         = Inr (s\<lparr>s_dir_watcher := s_dir_watcher s \<and> state \<noteq> FLUSH_DIR,
                  s_fs := s_fs s \<and> state \<noteq> FLUSH_FS,
                  s_published := s_published s
                    @ (if state = FLUSH_FINAL then [Pub_final, Pub_footer] else [])
                    @ [Pub_defer (state + 1)],
                  s_calls := s_calls s
                    @ (if state = FLUSH_DIR \<and> s_dir_watcher s then [Dir_watcher_finish]
                       else if state = FLUSH_FP \<and> s_pusher s then [Pusher_finish]
                       else if state = FLUSH_FS \<and> s_fs s then [Fs_finish (s_exit_code s)]
                       else [])\<rparr>)"
proof -
  from assms have "state = 0 \<or> state = 1 \<or> state = 2 \<or> state = 3 \<or> state = 4
                   \<or> state = 5 \<or> state = 6 \<or> state = 7"
    by (auto simp: defer_states)
  then show ?thesis
    by (elim disjE) (simp_all add: send_request_defer_def defer_states)
qed

lemma defer_end_full:
  "send_request_defer s END
   = Inr (s\<lparr>s_exit_result := True,
            s_pusher := s_pusher s \<and> (s_exit_sync_uuid s = None \<or> s_exit_sync_uuid s = Some []),
            s_result_q := s_result_q s
              @ (case s_exit_sync_uuid s of
                   None \<Rightarrow> []
                 | Some u \<Rightarrow> if u = [] then [] else [Exit_result u]),
            s_calls := s_calls s
              @ (if s_pusher s \<and> s_exit_sync_uuid s \<noteq> None \<and> s_exit_sync_uuid s \<noteq> Some []
                 then [Pusher_print_status, Pusher_join] else [])\<rparr>)"
  by (simp add: send_request_defer_def defer_states Let_def split: option.splits)

lemma handler_defer_full:
  "handle_request_defer dumps h r state
   = h\<lparr>sender_q := sender_q h
          @ (if state = FLUSH_SUM \<and> \<not> settings_offline h
             then [summary_record_of dumps (consolidated_summary h)] else [])
          @ [r],
        writer_q := writer_q h
          @ (if state = FLUSH_SUM then [summary_record_of dumps (consolidated_summary h)] else [])
          @ (if control_local r then [] else [r]),
        tb_watcher := tb_watcher h \<and> state \<noteq> FLUSH_TB,
        handler_calls := handler_calls h
          @ (if state = FLUSH_STATS \<and> system_stats h then [Stats_shutdown]
             else if state = FLUSH_TB \<and> tb_watcher h then [Tb_finish]
             else [])\<rparr>"
  by (simp add: handle_request_defer_def dispatch_record_def save_summary_def Let_def
      defer_states summary_record_of_def)

text \<open>
  Claim C2, as stated, fails: the sender keeps no record of the state it has reached, so
  a request delivered again is processed again. After an exit record that asks for a
  reply, delivering the requests in order with the FLUSH_FINAL request delivered twice
  (and so two END requests) puts the exit result on the result queue twice.
\<close>

theorem defer_redelivery_counterexample:
  "map_sum id s_result_q
     (send_defers
        (send_exit (init_sender None)
           \<lparr>rec_type = RecExit 0, control_req_resp = True, control_local = False, uuid = ''u''\<rparr> 0)
        [BEGIN, FLUSH_STATS, FLUSH_TB, FLUSH_SUM, FLUSH_DIR, FLUSH_FP, FLUSH_FS,
         FLUSH_FINAL, FLUSH_FINAL, END, END])
   = Inr [Exit_result ''u'', Exit_result ''u'']"
  by (simp add: send_exit_def init_sender_def send_request_defer_def defer_states Let_def)

text \<open>
  Claim C2, amended. Each delivery of a request with a state from BEGIN up to
  FLUSH_FINAL makes the sender do the local action of that state and then publish one
  request with the next state, and nothing else: at FLUSH_DIR it finishes the directory
  watcher, if there is one, and drops it; at FLUSH_FP it finishes the file pusher, if
  there is one; at FLUSH_FS it finishes the file stream with the exit code, if there is
  one, and drops it; at FLUSH_FINAL it publishes the final and the footer record; at
  BEGIN, FLUSH_STATS, FLUSH_TB and FLUSH_SUM it has no action of its own. Each delivery
  of END publishes nothing and marks the exit result as available for polling; when the
  exit record stored a non-empty correlation id, it first waits for the file pusher
  (status, join) if there is one, drops it, and puts one exit result for that id on the
  result queue. Over any sequence of deliveries the exit results put on the queue are as
  many as the END requests delivered. The handler shuts the system statistics down at
  FLUSH_STATS, finishes and drops the tensorboard watcher at FLUSH_TB, flushes the
  consolidated summary at FLUSH_SUM, and then puts the defer request on the sender
  queue, whatever the offline setting, and on the writer queue unless it is marked
  local.
\<close>

theorem defer_state_machine:
  "(BEGIN \<le> state \<and> state < END \<longrightarrow>
      send_request_defer s state
      = Inr (s\<lparr>s_dir_watcher := s_dir_watcher s \<and> state \<noteq> FLUSH_DIR,
               s_fs := s_fs s \<and> state \<noteq> FLUSH_FS,
               s_published := s_published s
                 @ (if state = FLUSH_FINAL then [Pub_final, Pub_footer] else [])
                 @ [Pub_defer (state + 1)],
               s_calls := s_calls s
                 @ (if state = FLUSH_DIR \<and> s_dir_watcher s then [Dir_watcher_finish]
                    else if state = FLUSH_FP \<and> s_pusher s then [Pusher_finish]
                    else if state = FLUSH_FS \<and> s_fs s then [Fs_finish (s_exit_code s)]
                    else [])\<rparr>))
   \<and> send_request_defer s END
      = Inr (s\<lparr>s_exit_result := True,
               s_pusher := s_pusher s
                 \<and> (s_exit_sync_uuid s = None \<or> s_exit_sync_uuid s = Some []),
               s_result_q := s_result_q s
                 @ (case s_exit_sync_uuid s of
                      None \<Rightarrow> []
                    | Some u \<Rightarrow> if u = [] then [] else [Exit_result u]),
               s_calls := s_calls s
                 @ (if s_pusher s \<and> s_exit_sync_uuid s \<noteq> None \<and> s_exit_sync_uuid s \<noteq> Some []
                    then [Pusher_print_status, Pusher_join] else [])\<rparr>)
   \<and> ((\<forall>x \<in> set states. BEGIN \<le> x \<and> x \<le> END) \<and> s_exit_sync_uuid s = Some u \<and> u \<noteq> [] \<longrightarrow>
      (\<exists>s'. send_defers s states = Inr s'
         \<and> s_result_q s' = s_result_q s @ replicate (count_list states END) (Exit_result u)))
   \<and> handle_request_defer dumps h r state
      = h\<lparr>sender_q := sender_q h
             @ (if state = FLUSH_SUM \<and> \<not> settings_offline h
                then [summary_record_of dumps (consolidated_summary h)] else [])
             @ [r],
           writer_q := writer_q h
             @ (if state = FLUSH_SUM
                then [summary_record_of dumps (consolidated_summary h)] else [])
             @ (if control_local r then [] else [r]),
           tb_watcher := tb_watcher h \<and> state \<noteq> FLUSH_TB,
           handler_calls := handler_calls h
             @ (if state = FLUSH_STATS \<and> system_stats h then [Stats_shutdown]
                else if state = FLUSH_TB \<and> tb_watcher h then [Tb_finish]
                else [])\<rparr>"
proof (intro conjI impI)
  assume "BEGIN \<le> state \<and> state < END"
  then have "BEGIN \<le> state" "state < END" by simp_all
  then show "send_request_defer s state
      = Inr (s\<lparr>s_dir_watcher := s_dir_watcher s \<and> state \<noteq> FLUSH_DIR,
               s_fs := s_fs s \<and> state \<noteq> FLUSH_FS,
               s_published := s_published s
                 @ (if state = FLUSH_FINAL then [Pub_final, Pub_footer] else [])
                 @ [Pub_defer (state + 1)],
               s_calls := s_calls s
                 @ (if state = FLUSH_DIR \<and> s_dir_watcher s then [Dir_watcher_finish]
                    else if state = FLUSH_FP \<and> s_pusher s then [Pusher_finish]
                    else if state = FLUSH_FS \<and> s_fs s then [Fs_finish (s_exit_code s)]
                    else [])\<rparr>)"
    by (rule defer_step_full)
next
  show "send_request_defer s END
      = Inr (s\<lparr>s_exit_result := True,
               s_pusher := s_pusher s
                 \<and> (s_exit_sync_uuid s = None \<or> s_exit_sync_uuid s = Some []),
               s_result_q := s_result_q s
                 @ (case s_exit_sync_uuid s of
                      None \<Rightarrow> []
                    | Some u \<Rightarrow> if u = [] then [] else [Exit_result u]),
               s_calls := s_calls s
                 @ (if s_pusher s \<and> s_exit_sync_uuid s \<noteq> None \<and> s_exit_sync_uuid s \<noteq> Some []
                    then [Pusher_print_status, Pusher_join] else [])\<rparr>)"
    by (rule defer_end_full)
next
  assume "(\<forall>x \<in> set states. BEGIN \<le> x \<and> x \<le> END) \<and> s_exit_sync_uuid s = Some u \<and> u \<noteq> []"
  then have "\<forall>x \<in> set states. BEGIN \<le> x \<and> x \<le> END" "s_exit_sync_uuid s = Some u" "u \<noteq> []"
    by simp_all
  from defer_sequence[OF this]
  show "\<exists>s'. send_defers s states = Inr s'
         \<and> s_result_q s' = s_result_q s @ replicate (count_list states END) (Exit_result u)"
    by blast
next
  show "handle_request_defer dumps h r state
      = h\<lparr>sender_q := sender_q h
             @ (if state = FLUSH_SUM \<and> \<not> settings_offline h
                then [summary_record_of dumps (consolidated_summary h)] else [])
             @ [r],
           writer_q := writer_q h
             @ (if state = FLUSH_SUM
                then [summary_record_of dumps (consolidated_summary h)] else [])
             @ (if control_local r then [] else [r]),
           tb_watcher := tb_watcher h \<and> state \<noteq> FLUSH_TB,
           handler_calls := handler_calls h
             @ (if state = FLUSH_STATS \<and> system_stats h then [Stats_shutdown]
                else if state = FLUSH_TB \<and> tb_watcher h then [Tb_finish]
                else [])\<rparr>"
    by (rule handler_defer_full)
qed

theorem defer_state_machine_witness:
  "send_request_defer
     (send_exit ((init_sender None)\<lparr>s_fs := True, s_pusher := True, s_dir_watcher := True\<rparr>)
        \<lparr>rec_type = RecExit 3, control_req_resp = True, control_local = False,
         uuid = ''u''\<rparr> 3) FLUSH_FS
   = Inr ((init_sender None)
            \<lparr>s_exit_sync_uuid := Some ''u'', s_exit_code := 3,
             s_fs := False, s_pusher := True, s_dir_watcher := True,
             s_published := [Pub_defer BEGIN, Pub_defer FLUSH_FINAL],
             s_calls := [Fs_finish 3]\<rparr>)
   \<and> (\<exists>s'. send_defers
            (send_exit ((init_sender None)\<lparr>s_fs := True, s_pusher := True, s_dir_watcher := True\<rparr>)
               \<lparr>rec_type = RecExit 3, control_req_resp = True, control_local = False,
                uuid = ''u''\<rparr> 3)
            [BEGIN, FLUSH_STATS, FLUSH_TB, FLUSH_SUM, FLUSH_DIR, FLUSH_FP, FLUSH_FS,
             FLUSH_FINAL, END] = Inr s'
        \<and> s_result_q s' = [Exit_result ''u''])"
proof -
  let ?s = "send_exit ((init_sender None)\<lparr>s_fs := True, s_pusher := True, s_dir_watcher := True\<rparr>)
               \<lparr>rec_type = RecExit 3, control_req_resp = True, control_local = False,
                uuid = ''u''\<rparr> 3"
  have u: "s_exit_sync_uuid ?s = Some ''u''" "s_result_q ?s = []"
    by (simp_all add: send_exit_def init_sender_def)
  note t = defer_state_machine[of FLUSH_FS ?s
      "[BEGIN, FLUSH_STATS, FLUSH_TB, FLUSH_SUM, FLUSH_DIR, FLUSH_FP, FLUSH_FS, FLUSH_FINAL, END]"
      "''u''" "\<lambda>v. ''''"
      "\<lparr>settings_offline = True, sender_q = [], writer_q = [], consolidated_summary = [],
        system_stats = False, tb_watcher = False, handler_calls = []\<rparr>"
      "\<lparr>rec_type = RecExit 3, control_req_resp = True, control_local = False, uuid = ''u''\<rparr>"]
  have a: "send_request_defer ?s FLUSH_FS
   = Inr ((init_sender None)
            \<lparr>s_exit_sync_uuid := Some ''u'', s_exit_code := 3,
             s_fs := False, s_pusher := True, s_dir_watcher := True,
             s_published := [Pub_defer BEGIN, Pub_defer FLUSH_FINAL],
             s_calls := [Fs_finish 3]\<rparr>)"
    using t[THEN conjunct1]
    by (simp add: defer_states send_exit_def init_sender_def)
  have c: "count_list [BEGIN, FLUSH_STATS, FLUSH_TB, FLUSH_SUM, FLUSH_DIR, FLUSH_FP, FLUSH_FS,
             FLUSH_FINAL, END] END = 1"
    by (simp add: defer_states)
  have b: "\<exists>s'. send_defers ?s
            [BEGIN, FLUSH_STATS, FLUSH_TB, FLUSH_SUM, FLUSH_DIR, FLUSH_FP, FLUSH_FS,
             FLUSH_FINAL, END] = Inr s'
        \<and> s_result_q s' = [Exit_result ''u'']"
    using t[THEN conjunct2, THEN conjunct2, THEN conjunct1] u
    unfolding c by (simp add: defer_states)
  from a b show ?thesis by blast
qed

subsection \<open>The consolidated summary\<close>

lemma dict_set_twice: "dict_set (dict_set d k v) k v' = dict_set d k v'"
  by (induction d) (auto simp: dict_set_def)

lemma map_of_dict_set: "map_of (dict_set d k v) k' = (if k' = k then Some v else map_of d k')"
  by (simp add: dict_set_def update_conv')

lemma set_leaf_again:
  assumes "set_leaf loads k vj t = Inr t'"
  shows "set_leaf loads k vj t' = Inr t'"
  using assms
  by (auto simp: set_leaf_def dict_set_twice split: option.splits json.splits)

lemma modify_path_again_gen:
  assumes "\<And>x y. f x = Inr y \<Longrightarrow> f y = Inr y"
    and "modify_path t p f = Inr t'"
  shows "modify_path t' p f = Inr t'"
  using assms
proof (induction t p f arbitrary: t' rule: modify_path.induct)
  case (1 target f)
  from 1(2) have "f target = Inr t'" by simp
  then have "f t' = Inr t'" by (rule 1(1))
  then show ?case by simp
next
  case (2 d pr prs f)
  from 2(3) obtain child child' where
    c: "map_of d pr = Some child"
       "modify_path child prs f = Inr child'"
       "t' = JObj (dict_set d pr child')"
    by (auto split: option.splits sum.splits)
  have "modify_path child' prs f = Inr child'"
    by (rule 2(1)[OF c(1) _ c(2)]) (rule 2(2))
  then show ?case
    by (simp add: c(3) map_of_dict_set dict_set_twice)
qed simp_all

lemma modify_path_again:
  assumes "modify_path t p (set_leaf loads k vj) = Inr t'"
  shows "modify_path t' p (set_leaf loads k vj) = Inr t'"
  by (rule modify_path_again_gen[OF set_leaf_again assms])

lemma del_leaf_after_set:
  assumes "set_leaf loads k vj t = Inr t'"
  shows "\<exists>t''. del_leaf k t' = Inr t'' \<and> lookup_path t'' [k] = None"
  using assms
  by (auto simp: set_leaf_def del_leaf_def dict_del_def map_of_dict_set delete_conv'
           split: option.splits json.splits)

lemma modify_path_remove_gen:
  assumes "\<And>x y. f x = Inr y \<Longrightarrow> \<exists>z. g y = Inr z \<and> lookup_path z [k] = None"
    and "modify_path t p f = Inr t'"
  shows "\<exists>t''. modify_path t' p g = Inr t'' \<and> lookup_path t'' (p @ [k]) = None"
  using assms
proof (induction t p f arbitrary: t' rule: modify_path.induct)
  case (1 target f)
  from 1(2) have "f target = Inr t'" by simp
  then have "\<exists>z. g t' = Inr z \<and> lookup_path z [k] = None" by (rule 1(1))
  then show ?case by simp
next
  case (2 d pr prs f)
  from 2(3) obtain child child' where
    c: "map_of d pr = Some child"
       "modify_path child prs f = Inr child'"
       "t' = JObj (dict_set d pr child')"
    by (auto split: option.splits sum.splits)
  have "\<exists>t''. modify_path child' prs g = Inr t'' \<and> lookup_path t'' (prs @ [k]) = None"
    by (rule 2(1)[OF c(1) _ c(2)]) (rule 2(2))
  then obtain c'' where
    "modify_path child' prs g = Inr c''" "lookup_path c'' (prs @ [k]) = None"
    by blast
  then show ?case
    by (simp add: c(3) map_of_dict_set)
qed simp_all

lemma modify_path_remove:
  assumes "modify_path t p (set_leaf loads k vj) = Inr t'"
  shows "\<exists>t''. modify_path t' p (del_leaf k) = Inr t'' \<and> lookup_path t'' (p @ [k]) = None"
  by (rule modify_path_remove_gen[OF del_leaf_after_set assms])

lemma modify_path_dict:
  assumes "modify_path (JObj d) p f = Inr t'" "\<And>x y. f x = Inr y \<Longrightarrow> \<exists>d'. y = JObj d'"
  shows "\<exists>d'. t' = JObj d'"
  using assms by (cases p) (auto split: option.splits sum.splits)

lemma set_leaf_dict: "set_leaf loads k vj x = Inr y \<Longrightarrow> \<exists>d'. y = JObj d'"
  by (auto simp: set_leaf_def split: option.splits json.splits)

lemma del_leaf_dict: "del_leaf k x = Inr y \<Longrightarrow> \<exists>d'. y = JObj d'"
  by (auto simp: del_leaf_def split: sum.splits json.splits)

lemma summary_key_nonempty: "summary_key item = Inr key \<Longrightarrow> key \<noteq> []"
  by (auto simp: summary_key_def split: if_splits)

lemma apply_update_idem:
  assumes "apply_update loads d item = Inr d'"
  shows "apply_update loads d' item = Inr d'"
proof -
  from assms obtain key t where
    k: "summary_key item = Inr key"
       "modify_path (JObj d) (butlast key) (set_leaf loads (last key) (item_value_json item)) = Inr t"
       "d' = the_dict t"
    by (auto simp: apply_update_def split: sum.splits)
  from modify_path_dict[OF k(2)] set_leaf_dict obtain dd where "t = JObj dd" by blast
  with k(3) have t: "t = JObj d'" by (simp add: the_dict_def)
  from modify_path_again[OF k(2)] show ?thesis
    by (simp add: apply_update_def k(1) t the_dict_def)
qed

lemma apply_remove_after_update:
  assumes "apply_update loads d item = Inr d'"
    and "summary_key item' = summary_key item"
  shows "\<exists>key d''. summary_key item = Inr key \<and> apply_remove d' item' = Inr d''
                  \<and> lookup_path (JObj d'') key = None"
proof -
  from assms obtain key t where
    k: "summary_key item = Inr key"
       "modify_path (JObj d) (butlast key) (set_leaf loads (last key) (item_value_json item)) = Inr t"
       "d' = the_dict t"
    by (auto simp: apply_update_def split: sum.splits)
  from modify_path_dict[OF k(2)] set_leaf_dict obtain dd where "t = JObj dd" by blast
  with k(3) have t: "t = JObj d'" by (simp add: the_dict_def)
  from modify_path_remove[OF k(2)] obtain t'' where
    r: "modify_path t (butlast key) (del_leaf (last key)) = Inr t''"
       "lookup_path t'' (butlast key @ [last key]) = None"
    by blast
  from modify_path_dict[OF r(1)[unfolded t]] del_leaf_dict obtain d'' where t'': "t'' = JObj d''"
    by blast
  have "butlast key @ [last key] = key"
    using summary_key_nonempty[OF k(1)] by simp
  with r t t'' k(1) assms(2) show ?thesis
    by (simp add: apply_remove_def the_dict_def)
qed

lemma consolidated_save_summary [simp]:
  "consolidated_summary (save_summary dumps h d flush) = consolidated_summary h"
  by (simp add: save_summary_def dispatch_record_def Let_def)

lemma handle_summary_update_only:
  "handle_summary loads dumps h \<lparr>sr_update = [item], sr_remove = []\<rparr> = Inr h1
   \<Longrightarrow> apply_update loads (consolidated_summary h) item = Inr (consolidated_summary h1)"
  by (auto simp: handle_summary_def split: sum.splits)

text \<open>
  Claim C7. When a summary record with one update item has been handled, handling the
  same record again leaves the consolidated summary as it is; and handling a record that
  removes the item's key path then succeeds and leaves no value at that key path. (When
  the first record raises, the second raises in the same way on the same summary.)
\<close>

theorem summary_update_idempotent_and_removable:
  assumes "handle_summary loads dumps h \<lparr>sr_update = [item], sr_remove = []\<rparr> = Inr h1"
  shows "(\<exists>h2. handle_summary loads dumps h1 \<lparr>sr_update = [item], sr_remove = []\<rparr> = Inr h2
             \<and> consolidated_summary h2 = consolidated_summary h1)
       \<and> (\<forall>item'. summary_key item' = summary_key item \<longrightarrow>
             (\<exists>key h3. summary_key item = Inr key
                \<and> handle_summary loads dumps h1 \<lparr>sr_update = [], sr_remove = [item']\<rparr> = Inr h3
                \<and> lookup_path (JObj (consolidated_summary h3)) key = None))"
proof (intro conjI allI impI)
  note u = handle_summary_update_only[OF assms]
  from apply_update_idem[OF u]
  show "\<exists>h2. handle_summary loads dumps h1 \<lparr>sr_update = [item], sr_remove = []\<rparr> = Inr h2
             \<and> consolidated_summary h2 = consolidated_summary h1"
    by (simp add: handle_summary_def)
next
  fix item'
  assume k: "summary_key item' = summary_key item"
  note u = handle_summary_update_only[OF assms]
  from apply_remove_after_update[OF u k] obtain key d'' where
    "summary_key item = Inr key" "apply_remove (consolidated_summary h1) item' = Inr d''"
    "lookup_path (JObj d'') key = None"
    by blast
  then show "\<exists>key h3. summary_key item = Inr key
                \<and> handle_summary loads dumps h1 \<lparr>sr_update = [], sr_remove = [item']\<rparr> = Inr h3
                \<and> lookup_path (JObj (consolidated_summary h3)) key = None"
    by (simp add: handle_summary_def)
qed

theorem summary_update_idempotent_and_removable_witness:
  "handle_summary (\<lambda>s. if s = ''1'' then Some (JInt 1) else None) (\<lambda>v. '''')
     \<lparr>settings_offline = True, sender_q = [], writer_q = [],
      consolidated_summary = [(''a'', JObj [])],
      system_stats = False, tb_watcher = False, handler_calls = []\<rparr>
     \<lparr>sr_update = [\<lparr>item_key = '''', item_nested_key = [''a'', ''b''],
                    item_value_json = ''1''\<rparr>], sr_remove = []\<rparr>
   = Inr \<lparr>settings_offline = True, sender_q = [], writer_q = [],
          consolidated_summary = [(''a'', JObj [(''b'', JInt 1)])],
          system_stats = False, tb_watcher = False, handler_calls = []\<rparr>
   \<and> (\<exists>h2. handle_summary (\<lambda>s. if s = ''1'' then Some (JInt 1) else None) (\<lambda>v. '''')
          \<lparr>settings_offline = True, sender_q = [], writer_q = [],
           consolidated_summary = [(''a'', JObj [(''b'', JInt 1)])],
           system_stats = False, tb_watcher = False, handler_calls = []\<rparr>
          \<lparr>sr_update = [\<lparr>item_key = '''', item_nested_key = [''a'', ''b''],
                         item_value_json = ''1''\<rparr>], sr_remove = []\<rparr> = Inr h2
        \<and> consolidated_summary h2 = [(''a'', JObj [(''b'', JInt 1)])])
   \<and> (\<exists>h3. handle_summary (\<lambda>s. if s = ''1'' then Some (JInt 1) else None) (\<lambda>v. '''')
          \<lparr>settings_offline = True, sender_q = [], writer_q = [],
           consolidated_summary = [(''a'', JObj [(''b'', JInt 1)])],
           system_stats = False, tb_watcher = False, handler_calls = []\<rparr>
          \<lparr>sr_update = [], sr_remove = [\<lparr>item_key = '''', item_nested_key = [''a'', ''b''],
                         item_value_json = ''''\<rparr>]\<rparr> = Inr h3
        \<and> lookup_path (JObj (consolidated_summary h3)) [''a'', ''b''] = None)"
proof -
  let ?L = "\<lambda>s. if s = ''1'' then Some (JInt 1) else None"
  let ?D = "\<lambda>v::json. ''''"
  let ?h = "\<lparr>settings_offline = True, sender_q = [], writer_q = [],
      consolidated_summary = [(''a'', JObj [])],
      system_stats = False, tb_watcher = False, handler_calls = []\<rparr>"
  let ?h1 = "\<lparr>settings_offline = True, sender_q = [], writer_q = [],
          consolidated_summary = [(''a'', JObj [(''b'', JInt 1)])],
          system_stats = False, tb_watcher = False, handler_calls = []\<rparr>"
  let ?item = "\<lparr>item_key = '''', item_nested_key = [''a'', ''b''], item_value_json = ''1''\<rparr>"
  let ?item' = "\<lparr>item_key = '''', item_nested_key = [''a'', ''b''], item_value_json = ''''\<rparr>"
  have first: "handle_summary ?L ?D ?h \<lparr>sr_update = [?item], sr_remove = []\<rparr> = Inr ?h1"
    by (simp add: handle_summary_def apply_update_def summary_key_def set_leaf_def
        dict_set_def the_dict_def save_summary_def)
  note t = summary_update_idempotent_and_removable[OF first]
  have k: "summary_key ?item' = summary_key ?item" "summary_key ?item = Inr [''a'', ''b'']"
    by (simp_all add: summary_key_def)
  from t[THEN conjunct1] have a: "\<exists>h2. handle_summary ?L ?D ?h1
          \<lparr>sr_update = [?item], sr_remove = []\<rparr> = Inr h2
        \<and> consolidated_summary h2 = [(''a'', JObj [(''b'', JInt 1)])]"
    by simp
  from t[THEN conjunct2, rule_format, OF k(1)] k(2)
  have b: "\<exists>h3. handle_summary ?L ?D ?h1 \<lparr>sr_update = [], sr_remove = [?item']\<rparr> = Inr h3
        \<and> lookup_path (JObj (consolidated_summary h3)) [''a'', ''b''] = None"
    by auto
  from first a b show ?thesis by blast
qed

subsection \<open>Resuming\<close>

lemma map_of_dict_update:
  assumes "distinct (map fst other)"
  shows "map_of (dict_update d other) k
         = (case map_of other k of Some v \<Rightarrow> Some v | None \<Rightarrow> map_of d k)"
  using assms
proof (induction other arbitrary: d)
  case Nil
  then show ?case by (simp add: dict_update_def)
next
  case (Cons kv rest)
  obtain k' v' where kv: "kv = (k', v')" by (cases kv)
  have d: "distinct (map fst rest)" "k' \<notin> fst ` set rest"
    using Cons.prems by (simp_all add: kv)
  have step: "dict_update d (kv # rest) = dict_update (dict_set d k' v') rest"
    by (simp add: dict_update_def kv)
  have none: "map_of rest k' = None"
    using d(2) by (simp add: map_of_eq_None_iff)
  show ?case
    unfolding step Cons.IH[OF d(1)]
    using none by (simp add: kv map_of_dict_set split: option.splits)
qed

lemma load_tail_last_dict:
  assumes "loads t = Some (JArr xs)" "xs \<noteq> []" "last xs = JStr e" "loads e = Some (JObj d)"
  shows "load_tail loads (Some t) x0 rt0
         = (None, JObj d, case map_of d ''_runtime'' of None \<Rightarrow> JInt 0 | Some v \<Rightarrow> v)"
  using assms by (simp add: load_tail_def py_loads_def py_last_def py_get_def)

lemma maybe_setup_resume_ok:
  assumes mode: "settings_resume s = Some mode" "mode \<noteq> []" "mode \<noteq> ''never''"
    and hist: "historyTail st = Some ht" "loads ht = Some (JArr hs)" "hs \<noteq> []"
      "last hs = JStr he" "loads he = Some (JObj hdict)"
      "map_of hdict ''_step'' = Some (JInt n)"
      "py_get (JObj hdict) ''_runtime'' (JInt 0) = Inr (JInt hrt)"
    and ev: "load_tail loads (eventsTail st) (JObj []) (JInt 0) = (None, events, JInt ert)"
    and cfg: "loads_or_empty loads (status_config st) = Inr config"
    and sm: "loads_or_empty loads (summaryMetrics st) = Inr summary"
  shows "maybe_setup_resume loads (Some st) s
         = Inr (None,
                s\<lparr>s_resume_state :=
                     \<lparr>rs_step = JInt (n + 1),
                      rs_history = historyLineCount st,
                      rs_events = eventsLineCount st,
                      rs_output = logLineCount st,
                      rs_runtime = JInt (max ert hrt),
                      rs_summary = summary,
                      rs_config = config,
                      rs_resumed = True\<rparr>\<rparr>)"
proof -
  have lt: "load_tail loads (historyTail st) (JObj []) (JInt 0) = (None, JObj hdict, JInt hrt)"
    using load_tail_last_dict[OF hist(2-5), of "JObj []" "JInt 0"] hist(1,7)
    by (simp add: py_get_def)
  define l where "l = \<lparr>l_history = JObj hdict, l_events = events, l_config = config,
                l_summary = summary, l_events_rt = JInt ert, l_history_rt = JInt hrt\<rparr>"
  have rt: "resume_try loads st = (None, l)"
    by (simp add: resume_try_def Let_def lt ev cfg sm l_def)
  have mx: "py_max (l_events_rt l) (l_history_rt l) = Inr (JInt (max ert hrt))"
    by (auto simp: py_max_def py_num_def l_def max_def)
  have ne: "hdict \<noteq> []" using hist(6) by auto
  have st: "(if truthy (l_history l)
             then (case py_get (l_history l) ''_step'' (JInt (- 1)) of
                     Inl e \<Rightarrow> Inl e
                   | Inr v \<Rightarrow> py_add1 v)
             else Inr (JInt 0)) = Inr (JInt (n + 1))"
    using ne hist(6) by (simp add: l_def py_get_def py_add1_def)
  show ?thesis
    unfolding maybe_setup_resume_def
    using mode by (simp add: rt mx st) (simp add: l_def)
qed

lemma run_with_server_names_keeps [simp]:
  "run_starting_step (run_with_server_names server run) = run_starting_step run"
  "run_config (run_with_server_names server run) = run_config run"
  by (simp_all add: run_with_server_names_def Let_def split: option.splits)

lemma init_run_server_fields [simp]:
  "s_run (init_run_server server s run) = Some (run_with_server_names server run)"
  "s_calls (init_run_server server s run) = s_calls s"
  by (simp_all add: init_run_server_def Let_def split: option.splits)

lemma timestamp_seconds_int64: "timestamp_seconds t \<Longrightarrow> int64 t"
  by (simp add: timestamp_seconds_def int64_def)

lemma init_run_eq:
  assumes "rs_step (s_resume_state s) = JInt step"
    and "rs_runtime (s_resume_state s) = JInt rt"
    and "rs_summary (s_resume_state s) = JObj summary"
    and "int64 step" "timestamp_seconds (run_start_time run - rt)"
  shows "init_run server s run (JObj cfg)
         = Inr (init_run_server server
                  (s\<lparr>s_calls := s_calls s @ [Upsert_run (or_none (JObj cfg))]\<rparr>)
                  ((if rs_resumed (s_resume_state s) then run\<lparr>run_resumed := True\<rparr> else run)
                     \<lparr>run_starting_step := step, run_start_time := run_start_time run - rt,
                      run_config := Some cfg, run_summary := Some summary\<rparr>))"
  using assms timestamp_seconds_int64[of "run_start_time run - rt"]
  by (simp add: init_run_def py_int_minus_def set_starting_step_def set_start_time_def Let_def)

lemma init_run_step_out_of_range:
  assumes "rs_step (s_resume_state s) = JInt step"
    and "rs_runtime (s_resume_state s) = JInt rt"
    and "\<not> int64 step"
  shows "init_run server s run config_dict = Inl ValueError"
  using assms
  by (simp add: init_run_def py_int_minus_def set_starting_step_def Let_def)

lemma send_run_resumed:
  assumes first: "s_run s = None"
    and msr: "\<And>s0. settings_resume s0 = settings_resume s \<Longrightarrow>
               maybe_setup_resume loads status s0 = Inr (None, s0\<lparr>s_resume_state := rst\<rparr>)"
    and rst: "rs_step rst = JInt step" "rs_runtime rst = JInt rt"
      "rs_summary rst = JObj summary" "rs_config rst = JObj resumed"
    and rng: "int64 step" "timestamp_seconds (run_start_time run - rt)"
    and ov: "override = (case run_config run of None \<Rightarrow> [] | Some d \<Rightarrow> d)"
  shows "\<exists>s' r. send_run loads auto_project status server s data run = Inr s'
           \<and> s_run s' = Some r
           \<and> run_starting_step r = step
           \<and> run_config r = Some (dict_update resumed override)
           \<and> Upsert_run (or_none (JObj (dict_update resumed override))) \<in> set (s_calls s')"
proof -
  have ir: "init_run server (s0\<lparr>s_resume_state := rst\<lparr>rs_config := c\<rparr>, s_calls := cs\<rparr>) r (JObj cfg)
        = Inr (init_run_server server
                  (s0\<lparr>s_resume_state := rst\<lparr>rs_config := c\<rparr>,
                      s_calls := cs @ [Upsert_run (or_none (JObj cfg))]\<rparr>)
                  ((if rs_resumed rst then r\<lparr>run_resumed := True\<rparr> else r)
                     \<lparr>run_starting_step := step, run_start_time := run_start_time r - rt,
                      run_config := Some cfg, run_summary := Some summary\<rparr>))"
    if "run_start_time r = run_start_time run"
    for s0 c cs r cfg
    using init_run_eq[of "s0\<lparr>s_resume_state := rst\<lparr>rs_config := c\<rparr>, s_calls := cs\<rparr>"
        step rt summary r server cfg] rst rng that
    by simp
  show ?thesis
  proof (cases "run_config run")
    case None
    then show ?thesis
      using first rst ov
      by (cases "run_project run = []"; cases "control_req_resp data")
         (simp_all add: send_run_def Let_def msr ir)
  next
    case (Some d)
    then show ?thesis
      using first rst ov
      by (cases "run_project run = []"; cases "control_req_resp data")
         (simp_all add: send_run_def Let_def msr ir)
  qed
qed

lemma send_run_step_out_of_range:
  assumes first: "s_run s = None"
    and msr: "\<And>s0. settings_resume s0 = settings_resume s \<Longrightarrow>
               maybe_setup_resume loads status s0 = Inr (None, s0\<lparr>s_resume_state := rst\<rparr>)"
    and rst: "rs_step rst = JInt step" "rs_runtime rst = JInt rt" "rs_config rst = JObj resumed"
    and rng: "\<not> int64 step"
  shows "send_run loads auto_project status server s data run = Inl ValueError"
proof -
  have ir: "init_run server (s0\<lparr>s_resume_state := rst\<lparr>rs_config := c\<rparr>, s_calls := cs\<rparr>) r cfg
            = Inl ValueError" for s0 c cs r cfg
    using init_run_step_out_of_range[of "s0\<lparr>s_resume_state := rst\<lparr>rs_config := c\<rparr>, s_calls := cs\<rparr>"
        step rt server r cfg] rst rng
    by simp
  show ?thesis
  proof (cases "run_config run")
    case None
    then show ?thesis
      using first rst
      by (cases "run_project run = []"; cases "control_req_resp data")
         (simp_all add: send_run_def Let_def msr ir)
  next
    case (Some d)
    then show ?thesis
      using first rst
      by (cases "run_project run = []"; cases "control_req_resp data")
         (simp_all add: send_run_def Let_def msr ir)
  qed
qed

lemma resume_step_out_of_range:
  assumes first: "s_run s = None"
    and mode: "settings_resume s = Some mode" "mode \<noteq> []" "mode \<noteq> ''never''"
    and hist: "historyTail st = Some ht" "loads ht = Some (JArr hs)" "hs \<noteq> []"
      "last hs = JStr he" "loads he = Some (JObj hdict)"
      "map_of hdict ''_step'' = Some (JInt n)"
      "py_get (JObj hdict) ''_runtime'' (JInt 0) = Inr (JInt hrt)"
    and ev: "load_tail loads (eventsTail st) (JObj []) (JInt 0) = (None, events, JInt ert)"
    and cfg: "loads_or_empty loads (status_config st) = Inr (JObj resumed)"
    and sm: "loads_or_empty loads (summaryMetrics st) = Inr summary"
    and rng: "\<not> int64 (n + 1)"
  shows "send_run loads auto_project (Some st) server s data run = Inl ValueError"
proof -
  define rst where
    "rst = \<lparr>rs_step = JInt (n + 1), rs_history = historyLineCount st,
            rs_events = eventsLineCount st, rs_output = logLineCount st,
            rs_runtime = JInt (max ert hrt), rs_summary = summary,
            rs_config = JObj resumed, rs_resumed = True\<rparr>"
  have msr: "maybe_setup_resume loads (Some st) s0 = Inr (None, s0\<lparr>s_resume_state := rst\<rparr>)"
    if "settings_resume s0 = settings_resume s" for s0
    unfolding rst_def
    by (rule maybe_setup_resume_ok[OF _ mode(2,3) hist ev cfg sm]) (simp add: that mode(1))
  have rst: "rs_step rst = JInt (n + 1)" "rs_runtime rst = JInt (max ert hrt)"
    "rs_config rst = JObj resumed"
    by (simp_all add: rst_def)
  show ?thesis
    by (rule send_run_step_out_of_range[OF first msr rst rng])
qed

text \<open>
  Claim C8. On the first run record of a sender whose resume setting is on (and not
  \<^verbatim>\<open>never\<close>), when the backend knows the run, the last line of its history tail has
  the integer \<^verbatim>\<open>_step\<close> \<open>n\<close> and its tails, config and summary decode, the run is
  initialised with starting step \<open>n + 1\<close> (16 for \<open>n = 15\<close>), and the config passed
  to the run upsert and stored in the run is the resumed config updated with the
  config of the run record: a key of the override has the override's value, any
  other key keeps the resumed value. This is for a result that the run message can
  hold: \<open>n + 1\<close> fits \<^verbatim>\<open>int64\<close>, and the start time less the resumed runtime is the
  seconds of a timestamp. A step that does not fit makes the assignment raise
  \<^verbatim>\<open>ValueError\<close>, and no run is initialised (\<open>resume_step_out_of_range\<close>).
\<close>

theorem resume_merge:
  assumes first: "s_run s = None"
    and mode: "settings_resume s = Some mode" "mode \<noteq> []" "mode \<noteq> ''never''"
    and hist: "historyTail st = Some ht" "loads ht = Some (JArr hs)" "hs \<noteq> []"
      "last hs = JStr he" "loads he = Some (JObj hdict)"
      "map_of hdict ''_step'' = Some (JInt n)"
      "py_get (JObj hdict) ''_runtime'' (JInt 0) = Inr (JInt hrt)"
    and ev: "load_tail loads (eventsTail st) (JObj []) (JInt 0) = (None, events, JInt ert)"
    and cfg: "loads_or_empty loads (status_config st) = Inr (JObj resumed)"
    and sm: "loads_or_empty loads (summaryMetrics st) = Inr (JObj summary)"
    and rng: "int64 (n + 1)" "timestamp_seconds (run_start_time run - max ert hrt)"
    and ov: "override = (case run_config run of None \<Rightarrow> [] | Some d \<Rightarrow> d)"
      "distinct (map fst override)"
  shows "\<exists>s' r. send_run loads auto_project (Some st) server s data run = Inr s'
           \<and> s_run s' = Some r
           \<and> run_starting_step r = n + 1
           \<and> run_config r = Some (dict_update resumed override)
           \<and> Upsert_run (or_none (JObj (dict_update resumed override))) \<in> set (s_calls s')
           \<and> (\<forall>k v. map_of override k = Some v
                  \<longrightarrow> map_of (dict_update resumed override) k = Some v)
           \<and> (\<forall>k. map_of override k = None
                  \<longrightarrow> map_of (dict_update resumed override) k = map_of resumed k)"
proof -
  define rst where
    "rst = \<lparr>rs_step = JInt (n + 1), rs_history = historyLineCount st,
            rs_events = eventsLineCount st, rs_output = logLineCount st,
            rs_runtime = JInt (max ert hrt), rs_summary = JObj summary,
            rs_config = JObj resumed, rs_resumed = True\<rparr>"
  have msr: "maybe_setup_resume loads (Some st) s0 = Inr (None, s0\<lparr>s_resume_state := rst\<rparr>)"
    if "settings_resume s0 = settings_resume s" for s0
    unfolding rst_def
    by (rule maybe_setup_resume_ok[OF _ mode(2,3) hist ev cfg sm]) (simp add: that mode(1))
  have rst: "rs_step rst = JInt (n + 1)" "rs_runtime rst = JInt (max ert hrt)"
    "rs_summary rst = JObj summary" "rs_config rst = JObj resumed"
    by (simp_all add: rst_def)
  from send_run_resumed[OF first msr rst rng ov(1), of auto_project server data]
  obtain s' r where
    "send_run loads auto_project (Some st) server s data run = Inr s'"
    "s_run s' = Some r" "run_starting_step r = n + 1"
    "run_config r = Some (dict_update resumed override)"
    "Upsert_run (or_none (JObj (dict_update resumed override))) \<in> set (s_calls s')"
    by blast
  moreover have "\<forall>k v. map_of override k = Some v
                  \<longrightarrow> map_of (dict_update resumed override) k = Some v"
    by (simp add: map_of_dict_update[OF ov(2)])
  moreover have "\<forall>k. map_of override k = None
                  \<longrightarrow> map_of (dict_update resumed override) k = map_of resumed k"
    by (simp add: map_of_dict_update[OF ov(2)])
  ultimately show ?thesis by blast
qed

theorem resume_merge_witness:
  "\<exists>s' r. send_run example_loads ''auto'' (Some example_status)
             \<lparr>sv_displayName = None, sv_project_name = None, sv_entity_name = None\<rparr>
             (init_sender (Some ''allow''))
             \<lparr>rec_type = RecRun example_run, control_req_resp = True, control_local = False,
              uuid = ''u''\<rparr>
             example_run = Inr s'
         \<and> s_run s' = Some r
         \<and> run_starting_step r = 16
         \<and> run_config r = Some [(''lr'', JInt 5), (''seed'', JInt 2)]
         \<and> Upsert_run (JObj [(''lr'', JInt 5), (''seed'', JInt 2)]) \<in> set (s_calls s')"
proof -
  have du: "dict_update [(''lr'', JInt 1), (''seed'', JInt 2)] [(''lr'', JInt 5)]
            = [(''lr'', JInt 5), (''seed'', JInt 2)]"
    by (simp add: dict_update_def dict_set_def)
  have t: "\<exists>s' r. send_run example_loads ''auto'' (Some example_status)
             \<lparr>sv_displayName = None, sv_project_name = None, sv_entity_name = None\<rparr>
             (init_sender (Some ''allow''))
             \<lparr>rec_type = RecRun example_run, control_req_resp = True, control_local = False,
              uuid = ''u''\<rparr>
             example_run = Inr s'
         \<and> s_run s' = Some r
         \<and> run_starting_step r = 15 + 1
         \<and> run_config r = Some (dict_update [(''lr'', JInt 1), (''seed'', JInt 2)] [(''lr'', JInt 5)])
         \<and> Upsert_run (or_none (JObj (dict_update [(''lr'', JInt 1), (''seed'', JInt 2)]
                                         [(''lr'', JInt 5)]))) \<in> set (s_calls s')
         \<and> (\<forall>k v. map_of [(''lr'', JInt 5)] k = Some v
                  \<longrightarrow> map_of (dict_update [(''lr'', JInt 1), (''seed'', JInt 2)]
                                  [(''lr'', JInt 5)]) k = Some v)
         \<and> (\<forall>k. map_of [(''lr'', JInt 5)] k = None
                  \<longrightarrow> map_of (dict_update [(''lr'', JInt 1), (''seed'', JInt 2)]
                                  [(''lr'', JInt 5)]) k
                      = map_of [(''lr'', JInt 1), (''seed'', JInt 2)] k)"
    by (rule resume_merge[where mode = "''allow''" and ht = "''H''"
          and hs = "[JStr ''h14'', JStr ''h15'']" and he = "''h15''"
          and hdict = "[(''_step'', JInt 15), (''_runtime'', JInt 40)]" and hrt = 40
          and events = "JArr []" and ert = 0 and summary = "[]"])
       (simp_all add: init_sender_def example_status_def example_loads_def example_run_def
          py_get_def load_tail_def py_loads_def loads_or_empty_def int64_def
          timestamp_seconds_def)
  then show ?thesis
    unfolding du by (simp add: or_none_def) blast
qed

end
